theory Spec2Isabelle
  imports Main
begin

section \<open>Data model\<close>

text \<open>
  The repository holds two variants of one React component: the batch variant
  (\<^verbatim>\<open>src/App.jsx\<close>: images and PDFs, one ZIP download) and the image-only variant
  (one download per image). Both keep a list \<^verbatim>\<open>files\<close> of tracked entries, a flag
  \<^verbatim>\<open>processing\<close> and one hidden canvas.
\<close>

text \<open>The browser's \<^verbatim>\<open>File\<close>: only \<^verbatim>\<open>file.name\<close> and \<^verbatim>\<open>file.type\<close> are read by the code.\<close>

record File =
  file_name :: string
  file_type :: string

text \<open>
  A tracked entry of the image-only variant. JavaScript numbers are modelled as
  integers; a field that may be \<^verbatim>\<open>undefined\<close> is an option.
\<close>

record imageState =
  id_f :: string
  file_f :: File
  preview :: "string option"
  outputFilename :: string
  width :: "int option"
  height :: "int option"

datatype kind = Image | Pdf

text \<open>A tracked entry of the batch variant carries the field \<^verbatim>\<open>type\<close> as well.\<close>

record fileState = imageState +
  type :: kind

text \<open>The object literal passed to \<^verbatim>\<open>updateFileSettings\<close>: a field is present or absent.\<close>

record updates =
  upd_outputFilename :: "string option"
  upd_width :: "int option"
  upd_height :: "int option"

text \<open>A decoded image, as the \<^verbatim>\<open>Image\<close> element holds it once \<^verbatim>\<open>onload\<close> has fired.\<close>

record image =
  naturalWidth :: int
  naturalHeight :: int
  pixels :: "nat list"

text \<open>
  The canvas: the width and height of its bitmap, as \<^verbatim>\<open>canvas.width\<close> and
  \<^verbatim>\<open>canvas.height\<close> read them, and the \<^verbatim>\<open>drawImage\<close> calls since the last assignment to
  either of them (an assignment to a dimension clears the bitmap). A \<^verbatim>\<open>drawImage\<close> call
  is kept with its arguments as the code passes them.
\<close>

datatype drawOp = DrawImage image int int "int option" "int option"

record canvas =
  cwidth :: int
  cheight :: int
  drawn :: "drawOp list"

datatype blob = Blob "nat list" string

text \<open>An entry of a ZIP archive under construction: a file with its data, or a folder.\<close>

datatype zipObject = ZipFile blob | ZipDir

record artifact =
  blob :: blob
  filename :: string

datatype error = ReadError | PdfLoadError | PdfSaveError | ZipError

text \<open>The state of a promise once the event loop has nothing left to run.\<close>

datatype 'a settled = Resolved 'a | Rejected error | Pending

text \<open>Effects on the world outside the component, in the order the code performs them.\<close>

datatype effect =
    SetSrc string
  | CreateObjectURL string
  | RevokeObjectURL string
  | Click string blob
  | ConsoleError error

text \<open>
  The collaborators, none of which is code of the repository: the random number
  generator, the object-URL store, the image decoder, the canvas encoder, the file
  reader, pdf-lib and JSZip's serialiser. \<open>decoded_size\<close> is not called by the code;
  it is what a decoder reports as the pixel size of an encoded image.
\<close>

record browser =
  random_string :: "nat \<Rightarrow> string"
  object_url :: "nat \<Rightarrow> string"
  decode_image :: "string \<Rightarrow> image option"
  toBlob :: "canvas \<Rightarrow> string \<Rightarrow> blob option"
  decoded_size :: "blob \<Rightarrow> int \<times> int"
  arrayBuffer :: "File \<Rightarrow> nat list option"
  pdf_load :: "nat list \<Rightarrow> nat list option"
  pdf_save :: "nat list \<Rightarrow> bool \<Rightarrow> nat list option"
  generateAsync :: "(string \<times> zipObject) list \<Rightarrow> blob option"

text \<open>
  The component's state together with the effect log. \<open>randoms_drawn\<close> and
  \<open>urls_created\<close> count the calls of \<^verbatim>\<open>Math.random\<close> and \<^verbatim>\<open>URL.createObjectURL\<close>.
\<close>

record 'f app =
  files :: "'f list"
  processing :: bool
  canvasRef :: canvas
  log :: "effect list"
  randoms_drawn :: nat
  urls_created :: nat

section \<open>Strings\<close>

text \<open>\<^verbatim>\<open>s.split(c)\<close> for a one-character separator: never the empty array.\<close>

fun split_on :: "char \<Rightarrow> string \<Rightarrow> string list" where
  "split_on c [] = [[]]"
| "split_on c (x # xs) =
     (if x = c then [] # split_on c xs
      else (x # hd (split_on c xs)) # tl (split_on c xs))"

text \<open>\<^verbatim>\<open>file.name.split('.').pop() || 'png'\<close>: the empty string is the only falsy string.\<close>

definition extension :: "string \<Rightarrow> string" where
  "extension n =
     (let e = last (split_on (CHR ''.'') n) in if e = [] then ''png'' else e)"

text \<open>
  \<^verbatim>\<open>file.name.replace(/\.[^/.]+$/, '')\<close>: the pattern can only match from the last dot
  on, and does so when what follows that dot is non-empty and has no slash.
\<close>

definition nameWithoutExt :: "string \<Rightarrow> string" where
  "nameWithoutExt n =
     (let e = takeWhile (\<lambda>c. c \<noteq> CHR ''.'') (rev n)
      in if CHR ''.'' \<in> set n \<and> e \<noteq> [] \<and> CHR ''/'' \<notin> set e
         then rev (drop (Suc (length e)) (rev n)) else n)"

definition startsWith :: "string \<Rightarrow> string \<Rightarrow> bool" where
  "startsWith s p = (take (length p) s = p)"

definition substring :: "nat \<Rightarrow> string \<Rightarrow> string" where
  "substring k s = drop k s"

section \<open>Object URLs\<close>

definition createObjectURL :: "browser \<Rightarrow> 'f app \<Rightarrow> string \<times> 'f app" where
  "createObjectURL env st =
     (let url = object_url env (urls_created st)
      in (url, st\<lparr>log := log st @ [CreateObjectURL url],
                  urls_created := Suc (urls_created st)\<rparr>))"

definition revokeObjectURL :: "string \<Rightarrow> 'f app \<Rightarrow> 'f app" where
  "revokeObjectURL url st = st\<lparr>log := log st @ [RevokeObjectURL url]\<rparr>"

section \<open>File intake\<close>

text \<open>The callback of \<^verbatim>\<open>selectedFiles.map\<close> in the batch variant.\<close>

definition newFile :: "browser \<Rightarrow> 'f app \<Rightarrow> File \<Rightarrow> fileState \<times> 'f app" where
  "newFile env st f =
     (let ty = (if startsWith (file_type f) ''image/'' then Image else Pdf);
          nm = nameWithoutExt (file_name f);
          ident = substring 7 (random_string env (randoms_drawn st));
          st1 = st\<lparr>randoms_drawn := Suc (randoms_drawn st)\<rparr>;
          (pv, st2) = (if ty = Image
                       then (let (u, s) = createObjectURL env st1 in (Some u, s))
                       else (None, st1))
      in (\<lparr>id_f = ident, file_f = f, preview = pv, outputFilename = nm,
           width = (if ty = Image then Some 800 else None),
           height = (if ty = Image then Some 600 else None),
           type = ty\<rparr>, st2))"

text \<open>The same callback in the image-only variant: every file is taken as an image.\<close>

definition newImage :: "browser \<Rightarrow> 'f app \<Rightarrow> File \<Rightarrow> imageState \<times> 'f app" where
  "newImage env st f =
     (let nm = nameWithoutExt (file_name f);
          ident = substring 7 (random_string env (randoms_drawn st));
          st1 = st\<lparr>randoms_drawn := Suc (randoms_drawn st)\<rparr>;
          (u, st2) = createObjectURL env st1
      in (\<lparr>id_f = ident, file_f = f, preview = Some u, outputFilename = nm,
           width = Some 800, height = Some 600\<rparr>, st2))"

text \<open>\<^verbatim>\<open>xs.map(g)\<close> for a callback with effects: left to right, the state threaded.\<close>

fun map_st :: "('s \<Rightarrow> 'a \<Rightarrow> 'b \<times> 's) \<Rightarrow> 's \<Rightarrow> 'a list \<Rightarrow> 'b list \<times> 's" where
  "map_st g st [] = ([], st)"
| "map_st g st (x # xs) =
     (let (y, st1) = g st x; (ys, st2) = map_st g st1 xs in (y # ys, st2))"

definition handleFileChange ::
  "browser \<Rightarrow> fileState app \<Rightarrow> File list \<Rightarrow> fileState app" where
  "handleFileChange env st selectedFiles =
     (let (newFiles, st1) = map_st (newFile env) st selectedFiles
      in st1\<lparr>files := files st1 @ newFiles\<rparr>)"

definition handleFileChange_img ::
  "browser \<Rightarrow> imageState app \<Rightarrow> File list \<Rightarrow> imageState app" where
  "handleFileChange_img env st selectedFiles =
     (let (newFiles, st1) = map_st (newImage env) st selectedFiles
      in st1\<lparr>files := files st1 @ newFiles\<rparr>)"

section \<open>Entry store\<close>

text \<open>
  \<^verbatim>\<open>removeFile\<close> and \<^verbatim>\<open>updateFileSettings\<close> are the same text in both variants; the
  model is one function over both entry types. \<^verbatim>\<open>if (removedFile?.preview)\<close> is false
  for no entry, for an undefined preview and for the empty string.
\<close>

definition removeFile ::
  "string \<Rightarrow> ('m imageState_scheme) app \<Rightarrow> ('m imageState_scheme) app" where
  "removeFile i st =
     (let updatedFiles = filter (\<lambda>f. id_f f \<noteq> i) (files st);
          removedFile = find (\<lambda>f. id_f f = i) (files st);
          st1 = (case removedFile of
                   None \<Rightarrow> st
                 | Some f \<Rightarrow>
                     (case preview f of
                        None \<Rightarrow> st
                      | Some u \<Rightarrow> if u \<noteq> [] then revokeObjectURL u st else st))
      in st1\<lparr>files := updatedFiles\<rparr>)"

text \<open>\<^verbatim>\<open>{ ...file, ...updates }\<close>: a field present in \<^verbatim>\<open>updates\<close> replaces the entry's.\<close>

definition spread ::
  "'m imageState_scheme \<Rightarrow> updates \<Rightarrow> 'm imageState_scheme" where
  "spread f u =
     f\<lparr>outputFilename :=
         (case upd_outputFilename u of None \<Rightarrow> outputFilename f | Some s \<Rightarrow> s),
       width := (case upd_width u of None \<Rightarrow> width f | Some w \<Rightarrow> Some w),
       height := (case upd_height u of None \<Rightarrow> height f | Some h \<Rightarrow> Some h)\<rparr>"

definition updateFileSettings ::
  "string \<Rightarrow> updates \<Rightarrow> ('m imageState_scheme) app \<Rightarrow> ('m imageState_scheme) app" where
  "updateFileSettings i u st =
     st\<lparr>files := map (\<lambda>f. if id_f f = i then spread f u else f) (files st)\<rparr>"

section \<open>Per-entry processor\<close>

text \<open>
  \<^verbatim>\<open>canvas.width\<close> and \<^verbatim>\<open>canvas.height\<close> are attributes of type \<^verbatim>\<open>unsigned long\<close>. The
  value assigned is first converted to that type: \<^verbatim>\<open>undefined\<close> is not a number and
  becomes 0, an integer is taken modulo \<open>2\<^sup>3\<^sup>2\<close>.
\<close>

definition to_unsigned_long :: "int option \<Rightarrow> int" where
  "to_unsigned_long v = (case v of None \<Rightarrow> 0 | Some n \<Rightarrow> n mod 4294967296)"

text \<open>
  The converted value is then stored if it is at most \<open>2\<^sup>3\<^sup>1 - 1\<close>; otherwise the
  attribute's default is stored in its place: 300 for the width, 150 for the height.
\<close>

definition reflect_dimension :: "int \<Rightarrow> int \<Rightarrow> int" where
  "reflect_dimension dflt x = (if x \<le> 2147483647 then x else dflt)"

definition set_width :: "int option \<Rightarrow> canvas \<Rightarrow> canvas" where
  "set_width w c = c\<lparr>cwidth := reflect_dimension 300 (to_unsigned_long w), drawn := []\<rparr>"

definition set_height :: "int option \<Rightarrow> canvas \<Rightarrow> canvas" where
  "set_height h c = c\<lparr>cheight := reflect_dimension 150 (to_unsigned_long h), drawn := []\<rparr>"

definition drawImage ::
  "image \<Rightarrow> int \<Rightarrow> int \<Rightarrow> int option \<Rightarrow> int option \<Rightarrow> canvas \<Rightarrow> canvas" where
  "drawImage img dx dy dw dh c = c\<lparr>drawn := drawn c @ [DrawImage img dx dy dw dh]\<rparr>"

text \<open>\<^verbatim>\<open>img.src = fileState.preview\<close>: an undefined value is converted to a string.\<close>

definition img_src :: "'m imageState_scheme \<Rightarrow> string" where
  "img_src fs = (case preview fs of None \<Rightarrow> ''undefined'' | Some u \<Rightarrow> u)"

text \<open>The three canvas statements of the \<^verbatim>\<open>onload\<close> handler.\<close>

definition onload_canvas :: "'m imageState_scheme \<Rightarrow> image \<Rightarrow> canvas \<Rightarrow> canvas" where
  "onload_canvas fs img c =
     drawImage img 0 0 (width fs) (height fs)
       (set_height (height fs) (set_width (width fs) c))"

text \<open>
  \<^verbatim>\<open>processFile\<close> of the batch variant. The promise of the image branch is created
  with \<^verbatim>\<open>resolve\<close> only: no \<^verbatim>\<open>onerror\<close> handler is installed, and the \<^verbatim>\<open>toBlob\<close> callback
  does nothing when the blob is null. \<^verbatim>\<open>toBlob\<close> copies the bitmap when it is called.
\<close>

definition processFile ::
  "browser \<Rightarrow> 'f app \<Rightarrow> fileState \<Rightarrow> artifact settled \<times> 'f app" where
  "processFile env st fileState =
     (if type fileState = Pdf then
        (case arrayBuffer env (file_f fileState) of
           None \<Rightarrow> (Rejected ReadError, st)
         | Some buf \<Rightarrow>
             (case pdf_load env buf of
                None \<Rightarrow> (Rejected PdfLoadError, st)
              | Some pdfDoc \<Rightarrow>
                  (case pdf_save env pdfDoc False of
                     None \<Rightarrow> (Rejected PdfSaveError, st)
                   | Some compressedPdfBytes \<Rightarrow>
                       (Resolved \<lparr>blob = Blob compressedPdfBytes ''application/pdf'',
                                  filename = outputFilename fileState @ ''.pdf''\<rparr>, st))))
      else
        (let st1 = st\<lparr>log := log st @ [SetSrc (img_src fileState)]\<rparr>
         in case decode_image env (img_src fileState) of
              None \<Rightarrow> (Pending, st1)
            | Some img \<Rightarrow>
                (let c = onload_canvas fileState img (canvasRef st1);
                     st2 = st1\<lparr>canvasRef := c\<rparr>
                 in case toBlob env c (file_type (file_f fileState)) of
                      None \<Rightarrow> (Pending, st2)
                    | Some b \<Rightarrow>
                        (Resolved \<lparr>blob = b,
                                   filename = outputFilename fileState @ ''.'' @
                                     extension (file_name (file_f fileState))\<rparr>, st2))))"

text \<open>\<^verbatim>\<open>processAndDownloadImage\<close> of the image-only variant: the download is part of it.\<close>

definition processAndDownloadImage ::
  "browser \<Rightarrow> 'f app \<Rightarrow> imageState \<Rightarrow> unit settled \<times> 'f app" where
  "processAndDownloadImage env st fileState =
     (let st1 = st\<lparr>log := log st @ [SetSrc (img_src fileState)]\<rparr>
      in case decode_image env (img_src fileState) of
           None \<Rightarrow> (Pending, st1)
         | Some img \<Rightarrow>
             (let c = onload_canvas fileState img (canvasRef st1);
                  st2 = st1\<lparr>canvasRef := c\<rparr>
              in case toBlob env c (file_type (file_f fileState)) of
                   None \<Rightarrow> (Pending, st2)
                 | Some b \<Rightarrow>
                     (let fname = outputFilename fileState @ ''.'' @
                                    extension (file_name (file_f fileState));
                          (url, st3) = createObjectURL env st2;
                          st4 = st3\<lparr>log := log st3 @ [Click fname b]\<rparr>
                      in (Resolved (), revokeObjectURL url st4))))"

section \<open>Batch runner and output emitter\<close>

text \<open>
  \<^verbatim>\<open>Promise.all\<close>: rejected as soon as one promise rejects, whatever the others do;
  otherwise pending while one is pending; otherwise the values in the order of the
  array. Which rejection comes first in time is not decided by the code: the model
  takes the first in the array.
\<close>

fun promise_all :: "'a settled list \<Rightarrow> 'a list settled" where
  "promise_all [] = Resolved []"
| "promise_all (Rejected e # rs) = Rejected e"
| "promise_all (Resolved a # rs) =
     (case promise_all rs of
        Resolved as \<Rightarrow> Resolved (a # as)
      | Rejected e \<Rightarrow> Rejected e
      | Pending \<Rightarrow> Pending)"
| "promise_all (Pending # rs) =
     (case promise_all rs of
        Rejected e \<Rightarrow> Rejected e
      | _ \<Rightarrow> Pending)"

text \<open>
  JSZip keeps the entries of an archive in a table from names to objects, in the
  order in which the names were first assigned. \<^verbatim>\<open>this.files[name] = object\<close>: a name
  already present keeps its place and gets the new object, a new name goes to the end.
\<close>

fun assign ::
  "string \<Rightarrow> zipObject \<Rightarrow> (string \<times> zipObject) list \<Rightarrow> (string \<times> zipObject) list" where
  "assign n e [] = [(n, e)]"
| "assign n e ((k, v) # z) = (if k = n then (k, e) # z else (k, v) # assign n e z)"

text \<open>JSZip's \<^verbatim>\<open>forceTrailingSlash\<close>: a slash is added unless the path ends with one.\<close>

definition forceTrailingSlash :: "string \<Rightarrow> string" where
  "forceTrailingSlash path =
     (if path \<noteq> [] \<and> last path = CHR ''/'' then path else path @ ''/'')"

text \<open>
  JSZip's \<^verbatim>\<open>parentFolder\<close>: a slash at the end is dropped; the result is what stands
  before the last slash, and the empty string when there is no slash or only a
  leading one.
\<close>

definition parentFolder :: "string \<Rightarrow> string" where
  "parentFolder path =
     (let p = (if path \<noteq> [] \<and> last path = CHR ''/'' then butlast path else path)
      in rev (tl (dropWhile (\<lambda>c. c \<noteq> CHR ''/'') (rev p))))"

text \<open>
  JSZip's \<^verbatim>\<open>folderAdd(name, true)\<close>: a folder that is already in the table is left as
  it is; otherwise its own parent folder is added first, then the folder itself.
\<close>

function folderAdd ::
  "string \<Rightarrow> (string \<times> zipObject) list \<Rightarrow> (string \<times> zipObject) list" where
  "folderAdd name z =
     (case map_of z (forceTrailingSlash name) of
        Some object \<Rightarrow> z
      | None \<Rightarrow>
          (let parent = parentFolder (forceTrailingSlash name);
               z1 = (if parent \<noteq> [] then folderAdd parent z else z)
           in assign (forceTrailingSlash name) ZipDir z1))"
  by pat_completeness auto
termination
proof (relation "measure (\<lambda>(name, z). length name)")
  show "wf (measure (\<lambda>(name, z). length name))"
    by simp
next
  fix name :: string and z :: "(string \<times> zipObject) list" and parent
  assume p: "parent = parentFolder (forceTrailingSlash name)" and ne: "parent \<noteq> []"
  let ?p = "if name \<noteq> [] \<and> last name = CHR ''/'' then butlast name else name"
  have s: "parent = rev (tl (dropWhile (\<lambda>c. c \<noteq> CHR ''/'') (rev ?p)))"
    unfolding p by (simp add: parentFolder_def forceTrailingSlash_def)
  have "length (dropWhile (\<lambda>c. c \<noteq> CHR ''/'') (rev ?p)) \<le> length (rev ?p)"
    by (rule length_dropWhile_le)
  then have "length parent \<le> length ?p - 1"
    unfolding s by simp
  moreover from ne have "0 < length parent"
    by simp
  moreover have "length ?p \<le> length name"
    by simp
  ultimately have "length parent < length name"
    by arith
  then show "((parent, z), (name, z)) \<in> measure (\<lambda>(name, z). length name)"
    by simp
qed

declare folderAdd.simps [simp del]

text \<open>
  JSZip's \<^verbatim>\<open>zip.file(name, data)\<close> on the root of an archive, with the default
  options of JSZip 3 (\<^verbatim>\<open>createFolders\<close> is true): the parent folder of the name, if it
  has one, is added, then the file is assigned to its name.
\<close>

definition zip_file ::
  "string \<Rightarrow> blob \<Rightarrow> (string \<times> zipObject) list \<Rightarrow> (string \<times> zipObject) list" where
  "zip_file name data z =
     (let parent = parentFolder name;
          z1 = (if parent \<noteq> [] then folderAdd parent z else z)
      in assign name (ZipFile data) z1)"

text \<open>\<^verbatim>\<open>processedFiles.forEach(({ blob, filename }) => zip.file(filename, blob))\<close>\<close>

definition add_all ::
  "artifact list \<Rightarrow> (string \<times> zipObject) list \<Rightarrow> (string \<times> zipObject) list" where
  "add_all processedFiles z = foldl (\<lambda>z a. zip_file (filename a) (blob a) z) z processedFiles"

text \<open>
  \<^verbatim>\<open>processAndDownload\<close>. The result is the state in which the event loop comes to
  rest: where the awaited promise stays pending, nothing after the \<^verbatim>\<open>await\<close> runs,
  the \<^verbatim>\<open>finally\<close> block included.
\<close>

definition processAndDownload :: "browser \<Rightarrow> fileState app \<Rightarrow> fileState app" where
  "processAndDownload env st =
     (if files st = [] then st
      else
        (let st1 = st\<lparr>processing := True\<rparr>;
             (rs, st2) = map_st (processFile env) st1 (files st1)
         in case promise_all rs of
              Pending \<Rightarrow> st2
            | Rejected e \<Rightarrow> st2\<lparr>log := log st2 @ [ConsoleError e], processing := False\<rparr>
            | Resolved processedFiles \<Rightarrow>
                (case generateAsync env (add_all processedFiles []) of
                   None \<Rightarrow>
                     st2\<lparr>log := log st2 @ [ConsoleError ZipError], processing := False\<rparr>
                 | Some zipBlob \<Rightarrow>
                     (let (url, st3) = createObjectURL env st2;
                          st4 = st3\<lparr>log := log st3 @ [Click ''processed_files.zip'' zipBlob]\<rparr>;
                          st5 = revokeObjectURL url st4
                      in st5\<lparr>processing := False\<rparr>))))"

text \<open>
  The \<^verbatim>\<open>for\<close> loop of \<^verbatim>\<open>handleProcessAndDownload\<close>: each \<^verbatim>\<open>await\<close> ends before the next
  entry is touched; a pending promise suspends the loop for good.
\<close>

fun for_files ::
  "browser \<Rightarrow> 'f app \<Rightarrow> imageState list \<Rightarrow> unit settled \<times> 'f app" where
  "for_files env st [] = (Resolved (), st)"
| "for_files env st (f # fs) =
     (case processAndDownloadImage env st f of
        (Resolved u, st1) \<Rightarrow> for_files env st1 fs
      | (Rejected e, st1) \<Rightarrow> (Rejected e, st1)
      | (Pending, st1) \<Rightarrow> (Pending, st1))"

definition handleProcessAndDownload :: "browser \<Rightarrow> imageState app \<Rightarrow> imageState app" where
  "handleProcessAndDownload env st =
     (if files st = [] then st
      else
        (let st1 = st\<lparr>processing := True\<rparr>
         in case for_files env st1 (files st1) of
              (Resolved u, st2) \<Rightarrow> st2\<lparr>processing := False\<rparr>
            | (Rejected e, st2) \<Rightarrow>
                st2\<lparr>log := log st2 @ [ConsoleError e], processing := False\<rparr>
            | (Pending, st2) \<Rightarrow> st2))"

text \<open>The downloads triggered so far, in order: name and content of each.\<close>

fun downloads :: "effect list \<Rightarrow> (string \<times> blob) list" where
  "downloads [] = []"
| "downloads (Click n b # es) = (n, b) # downloads es"
| "downloads (e # es) = downloads es"

section \<open>Concrete inputs\<close>

text \<open>A freshly mounted component, and a browser on which the functions can be run.\<close>

definition idle :: "'f app" where
  "idle = \<lparr>files = [], processing = False,
           canvasRef = \<lparr>cwidth = 300, cheight = 150, drawn = []\<rparr>,
           log = [], randoms_drawn = 0, urls_created = 0\<rparr>"

definition demo_image :: image where
  "demo_image = \<lparr>naturalWidth = 4, naturalHeight = 3, pixels = [1, 2, 3]\<rparr>"

text \<open>
  \<^verbatim>\<open>(0.5).toString(36)\<close> is \<^verbatim>\<open>"0.i"\<close> and \<^verbatim>\<open>(0.25).toString(36)\<close> is \<^verbatim>\<open>"0.9"\<close>. The decoder
  fails on the URL \<^verbatim>\<open>blob:bad\<close>. The encoder yields nothing for a canvas without
  positive size or of more than \<open>2\<^sup>2\<^sup>8\<close> pixels, and otherwise writes the size of the
  canvas into the blob. The file \<^verbatim>\<open>broken.pdf\<close> does not hold a PDF.
\<close>

definition demo_browser :: browser where
  "demo_browser =
     \<lparr>random_string =
        (\<lambda>k. if k = 0 then ''0.i'' else if k = 1 then ''0.9'' else ''0.4fzyo82mvyr''),
      object_url =
        (\<lambda>k. if k = 0 then ''blob:0'' else if k = 1 then ''blob:1'' else ''blob:n''),
      decode_image =
        (\<lambda>u. if u = ''blob:bad'' \<or> u = ''undefined'' then None else Some demo_image),
      toBlob =
        (\<lambda>c t. if 0 < cwidth c \<and> 0 < cheight c \<and> cwidth c * cheight c \<le> 268435456
               then Some (Blob [nat (cwidth c), nat (cheight c)] t) else None),
      decoded_size = (\<lambda>b. case b of Blob [w, h] t \<Rightarrow> (int w, int h) | _ \<Rightarrow> (0, 0)),
      arrayBuffer =
        (\<lambda>f. if file_name f = ''broken.pdf'' then Some [0] else Some [37, 80, 68, 70]),
      pdf_load = (\<lambda>bs. if take 4 bs = [37, 80, 68, 70] then Some bs else None),
      pdf_save = (\<lambda>d u. Some d),
      generateAsync =
        (\<lambda>z. Some (Blob (map (\<lambda>(n, b). length n) z) ''application/zip''))\<rparr>"

text \<open>An image entry from its id, file name, MIME type, preview URL and settings.\<close>

definition entry ::
  "string \<Rightarrow> string \<Rightarrow> string \<Rightarrow> string \<Rightarrow> string \<Rightarrow> int \<Rightarrow> int \<Rightarrow> imageState" where
  "entry i n t u out w h =
     \<lparr>id_f = i, file_f = \<lparr>file_name = n, file_type = t\<rparr>, preview = Some u,
      outputFilename = out, width = Some w, height = Some h\<rparr>"

definition as_image :: "imageState \<Rightarrow> fileState" where
  "as_image e = imageState.extend e \<lparr>type = Image\<rparr>"

definition document :: "string \<Rightarrow> string \<Rightarrow> string \<Rightarrow> fileState" where
  "document i n out =
     \<lparr>id_f = i, file_f = \<lparr>file_name = n, file_type = ''application/pdf''\<rparr>,
      preview = None, outputFilename = out, width = None, height = None, type = Pdf\<rparr>"

definition two_images :: "imageState app" where
  "two_images = idle\<lparr>files :=
     [entry ''a'' ''x.png'' ''image/png'' ''blob:0'' ''x'' 800 600,
      entry ''b'' ''y.jpg'' ''image/jpeg'' ''blob:1'' ''y'' 640 480]\<rparr>"

definition wider :: updates where
  "wider = \<lparr>upd_outputFilename = None, upd_width = Some 1024, upd_height = None\<rparr>"

text \<open>Two files selected at once on the demo browser: both get the empty id.\<close>

definition selection :: "File list" where
  "selection = [\<lparr>file_name = ''x.png'', file_type = ''image/png''\<rparr>,
                \<lparr>file_name = ''y.png'', file_type = ''image/png''\<rparr>]"

definition twins :: "imageState app" where
  "twins = handleFileChange_img demo_browser idle selection"

text \<open>A browser whose random strings give a different id at every call.\<close>

definition counting_browser :: browser where
  "counting_browser =
     demo_browser\<lparr>random_string := (\<lambda>k. ''0.abcde'' @ replicate k (CHR ''7''))\<rparr>"

section \<open>Reachable states\<close>

text \<open>The id that the \<open>k\<close>-th call of \<^verbatim>\<open>Math.random\<close> leads to.\<close>

definition drawn_id :: "browser \<Rightarrow> nat \<Rightarrow> string" where
  "drawn_id env k = substring 7 (random_string env k)"

text \<open>The states the user can bring about from the freshly mounted component.\<close>

inductive reachable :: "browser \<Rightarrow> fileState app \<Rightarrow> bool" for env where
  start: "reachable env idle"
| intake: "reachable env st \<Longrightarrow> reachable env (handleFileChange env st sel)"
| remove: "reachable env st \<Longrightarrow> reachable env (removeFile i st)"
| update: "reachable env st \<Longrightarrow> reachable env (updateFileSettings i u st)"
| run: "reachable env st \<Longrightarrow> reachable env (processAndDownload env st)"

inductive reachable_img :: "browser \<Rightarrow> imageState app \<Rightarrow> bool" for env where
  start_img: "reachable_img env idle"
| intake_img: "reachable_img env st \<Longrightarrow> reachable_img env (handleFileChange_img env st sel)"
| remove_img: "reachable_img env st \<Longrightarrow> reachable_img env (removeFile i st)"
| update_img: "reachable_img env st \<Longrightarrow> reachable_img env (updateFileSettings i u st)"
| run_img: "reachable_img env st \<Longrightarrow> reachable_img env (handleProcessAndDownload env st)"

text \<open>
  The invariant behind the uniqueness of ids: the ids in the store are pairwise
  distinct and each was drawn by one of the calls of \<^verbatim>\<open>Math.random\<close> made so far.
\<close>

definition ids_drawn :: "browser \<Rightarrow> ('m imageState_scheme) app \<Rightarrow> bool" where
  "ids_drawn env st \<longleftrightarrow>
     distinct (map id_f (files st)) \<and>
     id_f ` set (files st) \<subseteq> drawn_id env ` {..< randoms_drawn st}"

text \<open>Stores for the batch runs: a good image with a broken one, and with a broken PDF.\<close>

definition mixed_batch :: "fileState app" where
  "mixed_batch = idle\<lparr>files :=
     [as_image (entry ''a'' ''x.png'' ''image/png'' ''blob:0'' ''x'' 800 600),
      as_image (entry ''b'' ''y.png'' ''image/png'' ''blob:bad'' ''y'' 800 600)]\<rparr>"

definition pdf_batch :: "fileState app" where
  "pdf_batch = idle\<lparr>files :=
     [as_image (entry ''a'' ''x.png'' ''image/png'' ''blob:0'' ''x'' 800 600),
      document ''c'' ''broken.pdf'' ''broken'']\<rparr>"

definition stuck_batch :: "fileState app" where
  "stuck_batch = idle\<lparr>files :=
     [as_image (entry ''b'' ''y.png'' ''image/png'' ''blob:bad'' ''y'' 800 600)]\<rparr>"

definition stuck_images :: "imageState app" where
  "stuck_images = idle\<lparr>files :=
     [entry ''b'' ''y.png'' ''image/png'' ''blob:bad'' ''y'' 800 600]\<rparr>"

text \<open>Two images that are given the same output name and have the same extension.\<close>

definition same_names :: "fileState app" where
  "same_names = idle\<lparr>files :=
     [as_image (entry ''a'' ''p.png'' ''image/png'' ''blob:0'' ''a'' 800 600),
      as_image (entry ''b'' ''q.png'' ''image/png'' ''blob:1'' ''a'' 640 480)]\<rparr>"

section \<open>Observations on a run\<close>

text \<open>
  The two effects by which a run is followed from outside: \<^verbatim>\<open>img.src = ...\<close> starts the
  processing of an entry, \<^verbatim>\<open>a.click()\<close> is its download.
\<close>

fun started_or_clicked :: "effect \<Rightarrow> bool" where
  "started_or_clicked (SetSrc u) = True"
| "started_or_clicked (Click n b) = True"
| "started_or_clicked e = False"

text \<open>What \<^verbatim>\<open>processAndDownloadImage\<close> downloads for one entry, run on its own.\<close>

definition download_of :: "browser \<Rightarrow> imageState \<Rightarrow> (string \<times> blob) list" where
  "download_of env f =
     downloads (log (snd (processAndDownloadImage env (idle :: imageState app) f)))"

text \<open>A good image, a broken one, and another good one behind it.\<close>

definition three_images :: "imageState app" where
  "three_images = idle\<lparr>files :=
     [entry ''a'' ''x.png'' ''image/png'' ''blob:0'' ''x'' 800 600,
      entry ''b'' ''y.png'' ''image/png'' ''blob:bad'' ''y'' 800 600,
      entry ''c'' ''z.png'' ''image/png'' ''blob:1'' ''z'' 640 480]\<rparr>"

text \<open>
  An assumption on the codec, which is not code of the repository: a blob encoded
  from a canvas of positive size decodes to an image of that size.
\<close>

definition codec_keeps_size :: "browser \<Rightarrow> bool" where
  "codec_keeps_size env \<longleftrightarrow>
     (\<forall>w h ops t b. 0 < w \<and> 0 < h \<and>
        toBlob env \<lparr>cwidth = w, cheight = h, drawn = ops\<rparr> t = Some b \<longrightarrow>
        decoded_size env b = (w, h))"

text \<open>
  Two settings that the width field of the form accepts: a width from \<open>2\<^sup>3\<^sup>2\<close> up, and a
  canvas too large for the encoder.
\<close>

definition wide_entry :: imageState where
  "wide_entry = entry ''w'' ''x.png'' ''image/png'' ''blob:0'' ''x'' 4294967396 600"

definition vast_entry :: imageState where
  "vast_entry = entry ''v'' ''x.png'' ''image/png'' ''blob:0'' ''x'' 100000 100000"

lemmas demo_defs =
  idle_def demo_image_def demo_browser_def entry_def as_image_def document_def
  imageState.extend_def

lemmas step_defs =
  processFile_def processAndDownloadImage_def Let_def img_src_def onload_canvas_def
  set_width_def set_height_def to_unsigned_long_def reflect_dimension_def drawImage_def
  extension_def createObjectURL_def revokeObjectURL_def

lemma onload_canvas_eq:
  "onload_canvas fs img c =
     \<lparr>cwidth = reflect_dimension 300 (to_unsigned_long (width fs)),
      cheight = reflect_dimension 150 (to_unsigned_long (height fs)),
      drawn = [DrawImage img 0 0 (width fs) (height fs)]\<rparr>"
  by (cases c) (simp add: onload_canvas_def set_width_def set_height_def drawImage_def)

lemma dimension_in_range:
  "0 < w \<Longrightarrow> w \<le> 2147483647 \<Longrightarrow> reflect_dimension d (to_unsigned_long (Some w)) = w"
  by (simp add: reflect_dimension_def to_unsigned_long_def)

section \<open>Entry store\<close>

lemma spread_fields:
  "id_f (spread f u) = id_f f" "file_f (spread f u) = file_f f"
  "preview (spread f u) = preview f" "imageState.more (spread f u) = imageState.more f"
  "outputFilename (spread f u) =
     (case upd_outputFilename u of None \<Rightarrow> outputFilename f | Some s \<Rightarrow> s)"
  "width (spread f u) = (case upd_width u of None \<Rightarrow> width f | Some w \<Rightarrow> Some w)"
  "height (spread f u) = (case upd_height u of None \<Rightarrow> height f | Some h \<Rightarrow> Some h)"
  by (simp_all add: spread_def)

lemma update_absent:
  "i \<notin> id_f ` set xs \<Longrightarrow> map (\<lambda>f. if id_f f = i then spread f u else f) xs = xs"
  by (induction xs) auto

lemma update_ids:
  "map id_f (map (\<lambda>f. if id_f f = i then spread f u else f) xs) = map id_f xs"
  by (induction xs) (auto simp: spread_fields)

text \<open>
  C7. \<^verbatim>\<open>updateFileSettings(id, updates)\<close> keeps the length of the store and the order
  of the ids; an entry with another id is left as it is; on an entry with that id a
  field named in \<^verbatim>\<open>updates\<close> (\<^verbatim>\<open>outputFilename\<close>, \<^verbatim>\<open>width\<close>, \<^verbatim>\<open>height\<close>) takes the new
  value and every other field, the preview URL among them, keeps its value; with no
  entry of that id the state is unchanged. No object URL is created or revoked, and
  the busy flag and the canvas are not touched.
\<close>

theorem updateFileSettings_frame:
  "length (files (updateFileSettings i u st)) = length (files st) \<and>
   map id_f (files (updateFileSettings i u st)) = map id_f (files st) \<and>
   (k < length (files st) \<and> id_f (files st ! k) \<noteq> i \<longrightarrow>
      files (updateFileSettings i u st) ! k = files st ! k) \<and>
   (k < length (files st) \<and> id_f (files st ! k) = i \<longrightarrow>
      outputFilename (files (updateFileSettings i u st) ! k) =
        (case upd_outputFilename u of
           None \<Rightarrow> outputFilename (files st ! k) | Some s \<Rightarrow> s) \<and>
      width (files (updateFileSettings i u st) ! k) =
        (case upd_width u of None \<Rightarrow> width (files st ! k) | Some w \<Rightarrow> Some w) \<and>
      height (files (updateFileSettings i u st) ! k) =
        (case upd_height u of None \<Rightarrow> height (files st ! k) | Some h \<Rightarrow> Some h) \<and>
      id_f (files (updateFileSettings i u st) ! k) = id_f (files st ! k) \<and>
      file_f (files (updateFileSettings i u st) ! k) = file_f (files st ! k) \<and>
      preview (files (updateFileSettings i u st) ! k) = preview (files st ! k) \<and>
      imageState.more (files (updateFileSettings i u st) ! k) =
        imageState.more (files st ! k)) \<and>
   (i \<notin> id_f ` set (files st) \<longrightarrow> updateFileSettings i u st = st) \<and>
   log (updateFileSettings i u st) = log st \<and>
   urls_created (updateFileSettings i u st) = urls_created st \<and>
   processing (updateFileSettings i u st) = processing st \<and>
   canvasRef (updateFileSettings i u st) = canvasRef st"
  by (simp add: updateFileSettings_def update_absent update_ids spread_fields)

theorem updateFileSettings_frame_witness:
  "(1::nat) < length (files two_images) \<and> id_f (files two_images ! 1) \<noteq> ''a'' \<and>
   files (updateFileSettings ''a'' wider two_images) ! 1 = files two_images ! 1 \<and>
   (0::nat) < length (files two_images) \<and> id_f (files two_images ! 0) = ''a'' \<and>
   width (files (updateFileSettings ''a'' wider two_images) ! 0) = Some 1024 \<and>
   height (files (updateFileSettings ''a'' wider two_images) ! 0) = Some 600 \<and>
   preview (files (updateFileSettings ''a'' wider two_images) ! 0) = Some ''blob:0'' \<and>
   ''zz'' \<notin> id_f ` set (files two_images) \<and>
   updateFileSettings ''zz'' wider two_images = two_images"
proof -
  have h1: "(1::nat) < length (files two_images) \<and> id_f (files two_images ! 1) \<noteq> ''a''"
    by (simp add: two_images_def demo_defs)
  have h0: "(0::nat) < length (files two_images) \<and> id_f (files two_images ! 0) = ''a''"
    by (simp add: two_images_def demo_defs)
  have hz: "''zz'' \<notin> id_f ` set (files two_images)"
    by (simp add: two_images_def demo_defs)
  have v: "upd_width wider = Some 1024" "upd_height wider = None"
    "width (files two_images ! 0) = Some 800" "height (files two_images ! 0) = Some 600"
    "preview (files two_images ! 0) = Some ''blob:0''"
    by (simp_all add: two_images_def wider_def demo_defs)
  from h1 updateFileSettings_frame [of "''a''" wider two_images 1]
  have r1: "files (updateFileSettings ''a'' wider two_images) ! 1 = files two_images ! 1"
    by simp
  from h0 v updateFileSettings_frame [of "''a''" wider two_images 0]
  have r0: "width (files (updateFileSettings ''a'' wider two_images) ! 0) = Some 1024 \<and>
            height (files (updateFileSettings ''a'' wider two_images) ! 0) = Some 600 \<and>
            preview (files (updateFileSettings ''a'' wider two_images) ! 0) = Some ''blob:0''"
    by simp
  from hz updateFileSettings_frame [of "''zz''" wider two_images 0]
  have rz: "updateFileSettings ''zz'' wider two_images = two_images"
    by simp
  from h1 h0 hz r1 r0 rz show ?thesis
    by simp
qed

lemma find_distinct_id:
  "distinct (map id_f xs) \<Longrightarrow> f \<in> set xs \<Longrightarrow> find (\<lambda>g. id_f g = id_f f) xs = Some f"
  by (induction xs) (auto simp: image_iff)

lemma filter_distinct_id:
  "distinct (map id_f xs) \<Longrightarrow> f \<in> set xs \<Longrightarrow>
   filter (\<lambda>g. id_f g \<noteq> id_f f) xs = remove1 f xs"
proof (induction xs)
  case Nil
  then show ?case by simp
next
  case (Cons x xs)
  show ?case
  proof (cases "x = f")
    case True
    with Cons.prems have "id_f f \<notin> id_f ` set xs" by simp
    then have "filter (\<lambda>g. id_f g \<noteq> id_f f) xs = xs"
      by (induction xs) auto
    with True show ?thesis by simp
  next
    case False
    with Cons.prems have "f \<in> set xs" "id_f x \<noteq> id_f f"
      by (auto simp: image_iff)
    with Cons False show ?thesis by simp
  qed
qed

lemma find_absent: "i \<notin> id_f ` set xs \<Longrightarrow> find (\<lambda>g. id_f g = i) xs = None"
  by (induction xs) auto

lemma filter_absent: "i \<notin> id_f ` set xs \<Longrightarrow> filter (\<lambda>g. id_f g \<noteq> i) xs = xs"
  by (induction xs) auto

lemma twins_eval:
  "twins = idle\<lparr>files := [entry '''' ''x.png'' ''image/png'' ''blob:0'' ''x'' 800 600,
                          entry '''' ''y.png'' ''image/png'' ''blob:1'' ''y'' 800 600],
                log := [CreateObjectURL ''blob:0'', CreateObjectURL ''blob:1''],
                randoms_drawn := 2, urls_created := 2\<rparr>"
  by (simp add: twins_def handleFileChange_img_def selection_def newImage_def demo_defs
      createObjectURL_def substring_def nameWithoutExt_def Let_def)

text \<open>
  C6 does not hold in every store state. After an intake in which \<^verbatim>\<open>Math.random()\<close>
  returned 0.5 and then 0.25, both entries have the empty id; \<^verbatim>\<open>removeFile("")\<close> then
  deletes both entries and revokes the preview URL of the first only.
\<close>

theorem removeFile_twins_counterexample:
  "length (files twins) = 2 \<and>
   id_f (files twins ! 0) = '''' \<and> preview (files twins ! 0) = Some ''blob:0'' \<and>
   id_f (files twins ! 1) = '''' \<and> preview (files twins ! 1) = Some ''blob:1'' \<and>
   files (removeFile '''' twins) = [] \<and>
   log (removeFile '''' twins) = log twins @ [RevokeObjectURL ''blob:0''] \<and>
   RevokeObjectURL ''blob:1'' \<notin> set (log (removeFile '''' twins))"
  by (simp add: twins_eval removeFile_def revokeObjectURL_def demo_defs)

text \<open>
  C6, for a store whose ids are pairwise distinct. \<^verbatim>\<open>removeFile(id)\<close> leaves the state
  as it is when no entry has that id, and in any store the id is absent afterwards and
  the entries with other ids stay as they were, in their order. When the ids are
  pairwise distinct and the entry \<open>f\<close> has that id, exactly \<open>f\<close> is taken out of the list,
  and the one effect is a single \<^verbatim>\<open>URL.revokeObjectURL\<close> of \<open>f\<close>'s preview URL (none for an
  entry without preview, as a document has none).
\<close>

theorem removeFile_exact:
  "(i \<notin> id_f ` set (files st) \<longrightarrow> removeFile i st = st) \<and>
   i \<notin> id_f ` set (files (removeFile i st)) \<and>
   filter (\<lambda>g. id_f g \<noteq> i) (files (removeFile i st)) = filter (\<lambda>g. id_f g \<noteq> i) (files st) \<and>
   (distinct (map id_f (files st)) \<and> f \<in> set (files st) \<and> id_f f = i \<longrightarrow>
      files (removeFile i st) = remove1 f (files st) \<and>
      log (removeFile i st) = log st @
        (case preview f of
           None \<Rightarrow> []
         | Some u \<Rightarrow> if u \<noteq> [] then [RevokeObjectURL u] else []))"
proof -
  have a: "i \<notin> id_f ` set (files st) \<Longrightarrow> removeFile i st = st"
    by (simp add: removeFile_def find_absent filter_absent)
  have b: "i \<notin> id_f ` set (files (removeFile i st))"
    by (auto simp: removeFile_def Let_def)
  have c: "filter (\<lambda>g. id_f g \<noteq> i) (files (removeFile i st)) =
           filter (\<lambda>g. id_f g \<noteq> i) (files st)"
    by (simp add: removeFile_def Let_def)
  have d: "files (removeFile i st) = remove1 f (files st) \<and>
      log (removeFile i st) = log st @
        (case preview f of
           None \<Rightarrow> []
         | Some u \<Rightarrow> if u \<noteq> [] then [RevokeObjectURL u] else [])"
    if "distinct (map id_f (files st))" "f \<in> set (files st)" "id_f f = i"
    using that find_distinct_id [of "files st" f] filter_distinct_id [of "files st" f]
    by (auto simp: removeFile_def Let_def revokeObjectURL_def split: option.splits)
  from a b c d show ?thesis by blast
qed

theorem removeFile_exact_witness:
  "''zz'' \<notin> id_f ` set (files two_images) \<and> removeFile ''zz'' two_images = two_images \<and>
   distinct (map id_f (files two_images)) \<and>
   entry ''a'' ''x.png'' ''image/png'' ''blob:0'' ''x'' 800 600 \<in> set (files two_images) \<and>
   id_f (entry ''a'' ''x.png'' ''image/png'' ''blob:0'' ''x'' 800 600) = ''a'' \<and>
   files (removeFile ''a'' two_images) =
     [entry ''b'' ''y.jpg'' ''image/jpeg'' ''blob:1'' ''y'' 640 480] \<and>
   log (removeFile ''a'' two_images) = [RevokeObjectURL ''blob:0'']"
proof -
  let ?a = "entry ''a'' ''x.png'' ''image/png'' ''blob:0'' ''x'' 800 600"
  have hz: "''zz'' \<notin> id_f ` set (files two_images)"
    by (simp add: two_images_def demo_defs)
  have ha: "distinct (map id_f (files two_images)) \<and> ?a \<in> set (files two_images) \<and>
            id_f ?a = ''a''"
    by (simp add: two_images_def demo_defs)
  have v: "remove1 ?a (files two_images) =
             [entry ''b'' ''y.jpg'' ''image/jpeg'' ''blob:1'' ''y'' 640 480]"
    "log two_images = []" "preview ?a = Some ''blob:0''"
    by (simp_all add: two_images_def demo_defs)
  from hz removeFile_exact [of "''zz''" two_images ?a]
  have rz: "removeFile ''zz'' two_images = two_images"
    by simp
  from ha v removeFile_exact [of "''a''" two_images ?a]
  have ra: "files (removeFile ''a'' two_images) =
              [entry ''b'' ''y.jpg'' ''image/jpeg'' ''blob:1'' ''y'' 640 480] \<and>
            log (removeFile ''a'' two_images) = [RevokeObjectURL ''blob:0'']"
    by simp
  from hz ha rz ra show ?thesis
    by simp
qed

section \<open>Uniqueness of ids\<close>

lemma map_st_keeps:
  assumes "\<And>s x. h (snd (g s x)) = h s"
  shows "h (snd (map_st g s xs)) = h s"
proof (induction xs arbitrary: s)
  case Nil
  show ?case by simp
next
  case (Cons x xs)
  have "h (snd (map_st g (snd (g s x)) xs)) = h (snd (g s x))"
    by (rule Cons.IH)
  with assms [of s x] show ?case
    by (simp add: split_beta)
qed

lemma newFile_facts:
  "id_f (fst (newFile env st f)) = drawn_id env (randoms_drawn st)"
  "randoms_drawn (snd (newFile env st f)) = Suc (randoms_drawn st)"
  "files (snd (newFile env st f)) = files st"
  by (simp_all add: newFile_def Let_def drawn_id_def createObjectURL_def split_beta)

lemma newImage_facts:
  "id_f (fst (newImage env st f)) = drawn_id env (randoms_drawn st)"
  "randoms_drawn (snd (newImage env st f)) = Suc (randoms_drawn st)"
  "files (snd (newImage env st f)) = files st"
  by (simp_all add: newImage_def Let_def drawn_id_def createObjectURL_def split_beta)

lemma map_st_ids:
  assumes "\<And>s x. id_f (fst (g s x)) = drawn_id env (randoms_drawn s)"
    and "\<And>s x. randoms_drawn (snd (g s x)) = Suc (randoms_drawn s)"
  shows "length (fst (map_st g s xs)) = length xs \<and>
         (\<forall>j < length xs. id_f (fst (map_st g s xs) ! j) = drawn_id env (randoms_drawn s + j)) \<and>
         randoms_drawn (snd (map_st g s xs)) = randoms_drawn s + length xs"
proof (induction xs arbitrary: s)
  case Nil
  show ?case by simp
next
  case (Cons x xs)
  from Cons.IH [of "snd (g s x)"] assms [of s x] show ?case
    by (auto simp: split_beta nth_Cons split: nat.splits)
qed

lemma ids_drawn_append:
  assumes inj: "inj (drawn_id env)" and inv: "ids_drawn env st"
    and len: "length new = n"
    and new: "\<forall>j < n. id_f (new ! j) = drawn_id env (randoms_drawn st + j)"
    and st': "files st' = files st @ new" "randoms_drawn st' = randoms_drawn st + n"
  shows "ids_drawn env st'"
proof -
  let ?r = "randoms_drawn st"
  have d: "distinct (map id_f new)"
  proof (unfold distinct_conv_nth, intro allI impI)
    fix i j
    assume i: "i < length (map id_f new)" and j: "j < length (map id_f new)" and ne: "i \<noteq> j"
    from i j len new have e: "id_f (new ! i) = drawn_id env (?r + i)"
      "id_f (new ! j) = drawn_id env (?r + j)"
      by simp_all
    from ne injD [OF inj, of "?r + i" "?r + j"]
    have "drawn_id env (?r + i) \<noteq> drawn_id env (?r + j)"
      by auto
    with e i j show "map id_f new ! i \<noteq> map id_f new ! j"
      by simp
  qed
  have s: "id_f ` set new \<subseteq> drawn_id env ` {?r ..< ?r + n}"
  proof
    fix y assume "y \<in> id_f ` set new"
    then obtain j where "j < n" "y = id_f (new ! j)"
      using len by (auto simp: in_set_conv_nth)
    with new show "y \<in> drawn_id env ` {?r ..< ?r + n}"
      by auto
  qed
  have "{..< ?r} \<inter> {?r ..< ?r + n} = {}"
    by auto
  with image_Int [OF inj, of "{..< ?r}" "{?r ..< ?r + n}"]
  have "drawn_id env ` {..< ?r} \<inter> drawn_id env ` {?r ..< ?r + n} = {}"
    by simp
  moreover from inv have A: "id_f ` set (files st) \<subseteq> drawn_id env ` {..< ?r}"
    by (simp add: ids_drawn_def)
  ultimately have disj: "id_f ` set (files st) \<inter> id_f ` set new = {}"
    using s by (simp only: disjoint_iff subset_iff) metis
  have "drawn_id env ` {?r ..< ?r + n} \<subseteq> drawn_id env ` {..< ?r + n}"
    by (rule image_mono) auto
  with s have B: "id_f ` set new \<subseteq> drawn_id env ` {..< ?r + n}"
    by (rule subset_trans)
  have "drawn_id env ` {..< ?r} \<subseteq> drawn_id env ` {..< ?r + n}"
    by (rule image_mono) auto
  with A have "id_f ` set (files st) \<subseteq> drawn_id env ` {..< ?r + n}"
    by (rule subset_trans)
  with B have sub:
    "id_f ` set (files st) \<union> id_f ` set new \<subseteq> drawn_id env ` {..< ?r + n}"
    by (simp only: Un_subset_iff)
  from inv have dst: "distinct (map id_f (files st))"
    by (simp add: ids_drawn_def)
  from dst d disj sub show ?thesis
    unfolding ids_drawn_def st' by (simp add: image_Un)
qed

lemma removeFile_files: "files (removeFile i st) = filter (\<lambda>f. id_f f \<noteq> i) (files st)"
  by (simp add: removeFile_def Let_def)

lemma removeFile_randoms: "randoms_drawn (removeFile i st) = randoms_drawn st"
  by (simp add: removeFile_def Let_def revokeObjectURL_def split: option.splits)

lemma ids_drawn_remove:
  assumes "ids_drawn env st"
  shows "ids_drawn env (removeFile i st)"
proof -
  have "id_f ` set (filter (\<lambda>f. id_f f \<noteq> i) (files st)) \<subseteq> id_f ` set (files st)"
    by auto
  with assms show ?thesis
    unfolding ids_drawn_def removeFile_files removeFile_randoms
    by (simp add: distinct_map_filter subset_trans)
qed

lemma ids_drawn_update:
  assumes "ids_drawn env st"
  shows "ids_drawn env (updateFileSettings i u st)"
proof -
  have m: "map id_f (files (updateFileSettings i u st)) = map id_f (files st)"
    by (simp add: updateFileSettings_def update_ids spread_fields)
  have "set (map id_f (files (updateFileSettings i u st))) = set (map id_f (files st))"
    by (simp only: m)
  then have s: "id_f ` set (files (updateFileSettings i u st)) = id_f ` set (files st)"
    by (simp only: set_map)
  have r: "randoms_drawn (updateFileSettings i u st) = randoms_drawn st"
    by (simp add: updateFileSettings_def)
  from assms show ?thesis
    unfolding ids_drawn_def m s r .
qed

section \<open>The per-image promise\<close>

text \<open>
  C10. In both variants the promise of the per-image operation is never rejected,
  whatever the collaborators do; when the decode fails (no \<^verbatim>\<open>load\<close> event), or the
  decode succeeds and the encoder hands \<^verbatim>\<open>null\<close> to the \<^verbatim>\<open>toBlob\<close> callback, the promise
  is neither resolved nor rejected: it stays pending.
\<close>

theorem image_promise_has_no_rejection:
  "(type fs \<noteq> Pdf \<longrightarrow>
      fst (processFile env st fs) \<noteq> Rejected e \<and>
      (decode_image env (img_src fs) = None \<longrightarrow> fst (processFile env st fs) = Pending) \<and>
      (\<forall>img. decode_image env (img_src fs) = Some img \<and>
             toBlob env (onload_canvas fs img (canvasRef st)) (file_type (file_f fs)) = None
             \<longrightarrow> fst (processFile env st fs) = Pending)) \<and>
   fst (processAndDownloadImage env st' im) \<noteq> Rejected e \<and>
   (decode_image env (img_src im) = None \<longrightarrow>
      fst (processAndDownloadImage env st' im) = Pending) \<and>
   (\<forall>img. decode_image env (img_src im) = Some img \<and>
          toBlob env (onload_canvas im img (canvasRef st')) (file_type (file_f im)) = None
          \<longrightarrow> fst (processAndDownloadImage env st' im) = Pending)"
  by (auto simp: processFile_def processAndDownloadImage_def Let_def
      split: option.splits prod.splits)

theorem image_promise_has_no_rejection_witness:
  "type (as_image (entry ''a'' ''x.png'' ''image/png'' ''blob:bad'' ''x'' 800 600)) \<noteq> Pdf \<and>
   decode_image demo_browser
     (img_src (as_image (entry ''a'' ''x.png'' ''image/png'' ''blob:bad'' ''x'' 800 600))) = None \<and>
   fst (processFile demo_browser (idle :: fileState app)
     (as_image (entry ''a'' ''x.png'' ''image/png'' ''blob:bad'' ''x'' 800 600))) = Pending \<and>
   decode_image demo_browser (img_src (entry ''b'' ''y.png'' ''image/png'' ''blob:0'' ''y'' 0 600))
     = Some demo_image \<and>
   toBlob demo_browser
     (onload_canvas (entry ''b'' ''y.png'' ''image/png'' ''blob:0'' ''y'' 0 600) demo_image
        (canvasRef (idle :: imageState app)))
     (file_type (file_f (entry ''b'' ''y.png'' ''image/png'' ''blob:0'' ''y'' 0 600))) = None \<and>
   fst (processAndDownloadImage demo_browser (idle :: imageState app)
     (entry ''b'' ''y.png'' ''image/png'' ''blob:0'' ''y'' 0 600)) = Pending"
proof -
  let ?a = "as_image (entry ''a'' ''x.png'' ''image/png'' ''blob:bad'' ''x'' 800 600)"
  let ?b = "entry ''b'' ''y.png'' ''image/png'' ''blob:0'' ''y'' 0 600"
  have a1: "type ?a \<noteq> Pdf"
    by (simp add: demo_defs)
  have a2: "decode_image demo_browser (img_src ?a) = None"
    by (simp add: demo_defs img_src_def)
  have b1: "decode_image demo_browser (img_src ?b) = Some demo_image"
    by (simp add: demo_defs img_src_def)
  have b2: "toBlob demo_browser (onload_canvas ?b demo_image (canvasRef (idle :: imageState app)))
              (file_type (file_f ?b)) = None"
    by (simp add: demo_defs onload_canvas_eq to_unsigned_long_def reflect_dimension_def)
  note T = image_promise_has_no_rejection [of ?a demo_browser "idle :: fileState app" ReadError "idle :: imageState app" ?b]
  from a1 a2 T have r1: "fst (processFile demo_browser (idle :: fileState app) ?a) = Pending"
    by simp
  from b1 b2 T have r2: "fst (processAndDownloadImage demo_browser (idle :: imageState app) ?b) = Pending"
    by simp
  from a1 a2 b1 b2 r1 r2 show ?thesis
    by simp
qed

section \<open>Output file names\<close>

lemma split_on_not_Nil: "split_on c s \<noteq> []"
  by (induction s) auto

text \<open>
  The extension is what follows the last dot of the source file name; \<^verbatim>\<open>'png'\<close> stands in
  only when that is empty. The output name is the entry's output name, a dot, and
  \<^verbatim>\<open>pdf\<close> for a document or the extension of the source file name for an image: the MIME
  type handed to the encoder plays no part in it.
\<close>

lemma last_split_on:
  "last (split_on c s) = rev (takeWhile (\<lambda>x. x \<noteq> c) (rev s))"
proof (induction s)
  case Nil
  show ?case by simp
next
  case (Cons x xs)
  show ?case
  proof (cases "c \<in> set xs")
    case True
    then have t: "takeWhile (\<lambda>x. x \<noteq> c) (rev xs @ [x]) = takeWhile (\<lambda>x. x \<noteq> c) (rev xs)"
      by simp
    from True have "tl (split_on c xs) \<noteq> []"
      by (induction xs) (auto simp: split_on_not_Nil)
    with Cons.IH t show ?thesis
      by (simp add: split_on_not_Nil last_tl)
  next
    case False
    then have s: "split_on c xs = [xs]"
      by (induction xs) auto
    from False have "\<And>y. y \<in> set (rev xs) \<Longrightarrow> y \<noteq> c"
      by auto
    then have a: "takeWhile (\<lambda>x. x \<noteq> c) (rev xs @ [z]) =
        rev xs @ takeWhile (\<lambda>x. x \<noteq> c) [z]" for z
      by (rule takeWhile_append2)
    show ?thesis
      by (cases "x = c") (simp_all add: s a)
  qed
qed

lemma extension_with_dot:
  assumes "e \<noteq> []" and "CHR ''.'' \<notin> set e"
  shows "extension (base @ ''.'' @ e) = e"
proof -
  from assms(2) have "\<And>y. y \<in> set (rev e) \<Longrightarrow> y \<noteq> CHR ''.''"
    by auto
  then have a: "takeWhile (\<lambda>x. x \<noteq> CHR ''.'') (rev e @ CHR ''.'' # rev base) =
      rev e @ takeWhile (\<lambda>x. x \<noteq> CHR ''.'') (CHR ''.'' # rev base)"
    by (rule takeWhile_append2)
  from assms(1) show ?thesis
    by (simp add: extension_def last_split_on a)
qed

lemma extension_trailing_dot: "extension (base @ ''.'') = ''png''"
  by (simp add: extension_def last_split_on)

lemma extension_no_dot:
  assumes "CHR ''.'' \<notin> set n" and "n \<noteq> []"
  shows "extension n = n"
proof -
  from assms(1) have a: "takeWhile (\<lambda>x. x \<noteq> CHR ''.'') (rev n) = rev n"
    by auto
  from assms(2) show ?thesis
    by (simp add: extension_def last_split_on a)
qed

lemma processFile_filename:
  "fst (processFile env st fs) = Resolved a \<Longrightarrow>
   filename a = outputFilename fs @ ''.'' @
     (if type fs = Pdf then ''pdf'' else extension (file_name (file_f fs)))"
  by (auto simp: processFile_def Let_def split: option.splits if_splits)

text \<open>
  C3, evaluated where the code departs from it: an image whose source file is named
  \<^verbatim>\<open>photo\<close>, with no dot. \<^verbatim>\<open>"photo".split('.')\<close> is \<^verbatim>\<open>["photo"]\<close>, so \<^verbatim>\<open>pop()\<close> is the whole
  name, which is truthy: the fallback \<^verbatim>\<open>'png'\<close> is not taken and the output is named
  \<^verbatim>\<open>photo.photo\<close>, in both variants.
\<close>

theorem filename_of_name_without_dot:
  "fst (processFile demo_browser (idle :: fileState app)
         (as_image (entry ''a'' ''photo'' ''image/png'' ''blob:0'' ''photo'' 800 600)))
     = Resolved \<lparr>blob = Blob [800, 600] ''image/png'', filename = ''photo.photo''\<rparr> \<and>
   downloads (log (snd (processAndDownloadImage demo_browser (idle :: imageState app)
       (entry ''a'' ''photo'' ''image/png'' ''blob:0'' ''photo'' 800 600))))
     = [(''photo.photo'', Blob [800, 600] ''image/png'')]"
  by (simp add: demo_defs step_defs)

section \<open>Target dimensions\<close>

lemma codec_keeps_sizeD:
  "codec_keeps_size env \<Longrightarrow> 0 < w \<Longrightarrow> 0 < h \<Longrightarrow>
   toBlob env \<lparr>cwidth = w, cheight = h, drawn = ops\<rparr> t = Some b \<Longrightarrow>
   decoded_size env b = (w, h)"
  unfolding codec_keeps_size_def by blast

lemma demo_codec: "codec_keeps_size demo_browser"
  by (auto simp: codec_keeps_size_def demo_browser_def split: if_splits)

text \<open>
  C4 does not hold for every positive integer. The width field stores any number the
  user types. For the width \<open>2\<^sup>3\<^sup>2 + 100\<close> the canvas, whose width is an
  \<^verbatim>\<open>unsigned long\<close>, gets the width 100: the file produced decodes to 100 by 600 pixels,
  on a codec that keeps the size of the canvas. For 100000 by 100000 the canvas has
  that size, the encoder yields no blob, and nothing is produced: the promise stays
  pending.
\<close>

theorem target_size_counterexample:
  "width wide_entry = Some 4294967396 \<and> height wide_entry = Some 600 \<and>
   decode_image demo_browser (img_src wide_entry) = Some demo_image \<and>
   canvasRef (snd (processAndDownloadImage demo_browser (idle :: imageState app) wide_entry)) =
     \<lparr>cwidth = 100, cheight = 600,
      drawn = [DrawImage demo_image 0 0 (Some 4294967396) (Some 600)]\<rparr> \<and>
   download_of demo_browser wide_entry = [(''x.png'', Blob [100, 600] ''image/png'')] \<and>
   fst (processFile demo_browser (idle :: fileState app) (as_image wide_entry)) =
     Resolved \<lparr>blob = Blob [100, 600] ''image/png'', filename = ''x.png''\<rparr> \<and>
   decoded_size demo_browser (Blob [100, 600] ''image/png'') = (100, 600) \<and>
   width vast_entry = Some 100000 \<and> height vast_entry = Some 100000 \<and>
   decode_image demo_browser (img_src vast_entry) = Some demo_image \<and>
   fst (processFile demo_browser (idle :: fileState app) (as_image vast_entry)) = Pending \<and>
   fst (processAndDownloadImage demo_browser (idle :: imageState app) vast_entry) = Pending \<and>
   download_of demo_browser vast_entry = []"
  by (simp add: wide_entry_def vast_entry_def download_of_def demo_defs step_defs)

text \<open>
  C4, for target sizes that a canvas can have. Let the target width and height of an
  image entry be integers from 1 to \<open>2\<^sup>3\<^sup>1 - 1\<close> and let its decode succeed with some
  image, of whatever natural size. Then the canvas is sized exactly to the target
  width and height, whatever its size was before, and the image is drawn once, from
  the origin, stretched to that width and height. If the encoder yields a blob for
  this canvas, processing produces that blob (as the artifact in the batch variant, as
  the download in the image-only variant); if it yields none, nothing is produced. On
  a codec that keeps the size of the canvas, the bytes produced decode to exactly the
  target width and height.
\<close>

theorem image_rendered_at_target_size:
  assumes "0 < w" and "w \<le> 2147483647" and "0 < h" and "h \<le> 2147483647"
  shows
    "(type fs \<noteq> Pdf \<and> width fs = Some w \<and> height fs = Some h \<and>
      decode_image env (img_src fs) = Some img \<longrightarrow>
        canvasRef (snd (processFile env st fs)) =
          \<lparr>cwidth = w, cheight = h, drawn = [DrawImage img 0 0 (Some w) (Some h)]\<rparr> \<and>
        (toBlob env \<lparr>cwidth = w, cheight = h, drawn = [DrawImage img 0 0 (Some w) (Some h)]\<rparr>
           (file_type (file_f fs)) = Some b \<longrightarrow>
         fst (processFile env st fs) =
           Resolved \<lparr>blob = b,
             filename = outputFilename fs @ ''.'' @ extension (file_name (file_f fs))\<rparr>) \<and>
        (toBlob env \<lparr>cwidth = w, cheight = h, drawn = [DrawImage img 0 0 (Some w) (Some h)]\<rparr>
           (file_type (file_f fs)) = None \<longrightarrow>
         fst (processFile env st fs) = Pending) \<and>
        (codec_keeps_size env \<and> fst (processFile env st fs) = Resolved a \<longrightarrow>
           decoded_size env (blob a) = (w, h))) \<and>
     (width im = Some w \<and> height im = Some h \<and>
      decode_image env (img_src im) = Some img \<longrightarrow>
        canvasRef (snd (processAndDownloadImage env st' im)) =
          \<lparr>cwidth = w, cheight = h, drawn = [DrawImage img 0 0 (Some w) (Some h)]\<rparr> \<and>
        (toBlob env \<lparr>cwidth = w, cheight = h, drawn = [DrawImage img 0 0 (Some w) (Some h)]\<rparr>
           (file_type (file_f im)) = Some b \<longrightarrow>
         download_of env im =
           [(outputFilename im @ ''.'' @ extension (file_name (file_f im)), b)]) \<and>
        (toBlob env \<lparr>cwidth = w, cheight = h, drawn = [DrawImage img 0 0 (Some w) (Some h)]\<rparr>
           (file_type (file_f im)) = None \<longrightarrow>
         download_of env im = []) \<and>
        (codec_keeps_size env \<and> (n, b') \<in> set (download_of env im) \<longrightarrow>
           decoded_size env b' = (w, h)))"
proof -
  note r = dimension_in_range [OF assms(1) assms(2)] dimension_in_range [OF assms(3) assms(4)]
  have k: "decoded_size env x = (w, h)"
    if "codec_keeps_size env"
      "toBlob env \<lparr>cwidth = w, cheight = h, drawn = [DrawImage img 0 0 (Some w) (Some h)]\<rparr> t =
         Some x" for x t
    using codec_keeps_sizeD [OF that(1) assms(1) assms(3) that(2)] .
  have batch: "canvasRef (snd (processFile env st fs)) =
          \<lparr>cwidth = w, cheight = h, drawn = [DrawImage img 0 0 (Some w) (Some h)]\<rparr> \<and>
        (toBlob env \<lparr>cwidth = w, cheight = h, drawn = [DrawImage img 0 0 (Some w) (Some h)]\<rparr>
           (file_type (file_f fs)) = Some b \<longrightarrow>
         fst (processFile env st fs) =
           Resolved \<lparr>blob = b,
             filename = outputFilename fs @ ''.'' @ extension (file_name (file_f fs))\<rparr>) \<and>
        (toBlob env \<lparr>cwidth = w, cheight = h, drawn = [DrawImage img 0 0 (Some w) (Some h)]\<rparr>
           (file_type (file_f fs)) = None \<longrightarrow>
         fst (processFile env st fs) = Pending) \<and>
        (codec_keeps_size env \<and> fst (processFile env st fs) = Resolved a \<longrightarrow>
           decoded_size env (blob a) = (w, h))"
    if "type fs \<noteq> Pdf" "width fs = Some w" "height fs = Some h"
      "decode_image env (img_src fs) = Some img"
    using that k [where t = "file_type (file_f fs)"]
    by (auto simp: processFile_def Let_def onload_canvas_eq r split: option.splits)
  have single: "canvasRef (snd (processAndDownloadImage env st' im)) =
          \<lparr>cwidth = w, cheight = h, drawn = [DrawImage img 0 0 (Some w) (Some h)]\<rparr> \<and>
        (toBlob env \<lparr>cwidth = w, cheight = h, drawn = [DrawImage img 0 0 (Some w) (Some h)]\<rparr>
           (file_type (file_f im)) = Some b \<longrightarrow>
         download_of env im =
           [(outputFilename im @ ''.'' @ extension (file_name (file_f im)), b)]) \<and>
        (toBlob env \<lparr>cwidth = w, cheight = h, drawn = [DrawImage img 0 0 (Some w) (Some h)]\<rparr>
           (file_type (file_f im)) = None \<longrightarrow>
         download_of env im = []) \<and>
        (codec_keeps_size env \<and> (n, b') \<in> set (download_of env im) \<longrightarrow>
           decoded_size env b' = (w, h))"
    if "width im = Some w" "height im = Some h" "decode_image env (img_src im) = Some img"
    using that k [where t = "file_type (file_f im)"]
    by (auto simp: download_of_def processAndDownloadImage_def Let_def onload_canvas_eq r
        split_beta createObjectURL_def revokeObjectURL_def idle_def split: option.splits)
  from batch single show ?thesis
    by blast
qed

theorem image_rendered_at_target_size_witness:
  "(0::int) < 800 \<and> (800::int) \<le> 2147483647 \<and> (0::int) < 600 \<and> (600::int) \<le> 2147483647 \<and>
   codec_keeps_size demo_browser \<and>
   type (as_image (entry ''a'' ''x.png'' ''image/png'' ''blob:0'' ''x'' 800 600)) \<noteq> Pdf \<and>
   width (as_image (entry ''a'' ''x.png'' ''image/png'' ''blob:0'' ''x'' 800 600)) = Some 800 \<and>
   height (as_image (entry ''a'' ''x.png'' ''image/png'' ''blob:0'' ''x'' 800 600)) = Some 600 \<and>
   decode_image demo_browser
     (img_src (as_image (entry ''a'' ''x.png'' ''image/png'' ''blob:0'' ''x'' 800 600))) =
     Some demo_image \<and>
   naturalWidth demo_image = 4 \<and> naturalHeight demo_image = 3 \<and>
   canvasRef (snd (processFile demo_browser (idle :: fileState app)
     (as_image (entry ''a'' ''x.png'' ''image/png'' ''blob:0'' ''x'' 800 600)))) =
     \<lparr>cwidth = 800, cheight = 600, drawn = [DrawImage demo_image 0 0 (Some 800) (Some 600)]\<rparr> \<and>
   fst (processFile demo_browser (idle :: fileState app)
     (as_image (entry ''a'' ''x.png'' ''image/png'' ''blob:0'' ''x'' 800 600))) =
     Resolved \<lparr>blob = Blob [800, 600] ''image/png'', filename = ''x.png''\<rparr> \<and>
   decoded_size demo_browser (Blob [800, 600] ''image/png'') = (800, 600) \<and>
   download_of demo_browser (entry ''a'' ''x.png'' ''image/png'' ''blob:0'' ''x'' 800 600) =
     [(''x.png'', Blob [800, 600] ''image/png'')]"
proof -
  let ?e = "entry ''a'' ''x.png'' ''image/png'' ''blob:0'' ''x'' 800 600"
  let ?a = "as_image ?e"
  let ?b = "Blob [800, 600] ''image/png''"
  let ?art = "\<lparr>blob = ?b, filename = ''x.png''\<rparr>"
  let ?c = "\<lparr>cwidth = 800, cheight = 600,
             drawn = [DrawImage demo_image 0 0 (Some 800) (Some 600)]\<rparr>"
  have p: "(0::int) < 800" "(800::int) \<le> 2147483647" "(0::int) < 600" "(600::int) \<le> 2147483647"
    by simp_all
  have ha: "type ?a \<noteq> Pdf \<and> width ?a = Some 800 \<and> height ?a = Some 600 \<and>
            decode_image demo_browser (img_src ?a) = Some demo_image"
    by (simp add: demo_defs img_src_def)
  have he: "width ?e = Some 800 \<and> height ?e = Some 600 \<and>
            decode_image demo_browser (img_src ?e) = Some demo_image"
    by (simp add: demo_defs img_src_def)
  have n: "naturalWidth demo_image = 4 \<and> naturalHeight demo_image = 3"
    by (simp add: demo_image_def)
  have ta: "toBlob demo_browser ?c (file_type (file_f ?a)) = Some ?b"
    by (simp add: demo_defs)
  have te: "toBlob demo_browser ?c (file_type (file_f ?e)) = Some ?b"
    by (simp add: demo_defs)
  have na: "outputFilename ?a @ ''.'' @ extension (file_name (file_f ?a)) = ''x.png''"
    and ne: "outputFilename ?e @ ''.'' @ extension (file_name (file_f ?e)) = ''x.png''"
    by (simp_all add: demo_defs extension_def)
  note T = image_rendered_at_target_size [OF p,
      where fs = ?a and img = demo_image and env = demo_browser
        and st = "idle :: fileState app" and b = ?b and a = ?art and im = ?e
        and st' = "idle :: imageState app" and n = "''x.png''" and b' = ?b]
  note A = T [THEN conjunct1, THEN mp, OF ha]
  note E = T [THEN conjunct2, THEN mp, OF he]
  from A [THEN conjunct1]
  have r0: "canvasRef (snd (processFile demo_browser (idle :: fileState app) ?a)) = ?c" .
  from A [THEN conjunct2, THEN conjunct1] ta na
  have r1: "fst (processFile demo_browser (idle :: fileState app) ?a) = Resolved ?art"
    by simp
  from demo_codec r1 A [THEN conjunct2, THEN conjunct2, THEN conjunct2]
  have r2: "decoded_size demo_browser ?b = (800, 600)"
    by simp
  from E [THEN conjunct2, THEN conjunct1] te ne
  have r3: "download_of demo_browser ?e = [(''x.png'', ?b)]"
    by simp
  from demo_codec p ha n r0 r1 r2 r3 show ?thesis
    by simp
qed

section \<open>Batch runner\<close>

lemma processFile_outcome:
  "fst (processFile env st f) = fst (processFile env st' f)"
  by (simp add: processFile_def Let_def onload_canvas_eq split: option.splits)

lemma processFile_state:
  "files (snd (processFile env st f)) = files st"
  "processing (snd (processFile env st f)) = processing st"
  "randoms_drawn (snd (processFile env st f)) = randoms_drawn st"
  "urls_created (snd (processFile env st f)) = urls_created st"
  "log (snd (processFile env st f)) =
     log st @ (if type f = Pdf then [] else [SetSrc (img_src f)])"
  by (simp_all add: processFile_def Let_def split: option.splits)

lemma map_st_processFile_fst:
  "fst (map_st (processFile env) st fs) = map (\<lambda>f. fst (processFile env st f)) fs"
proof (induction fs arbitrary: st)
  case Nil
  show ?case by simp
next
  case (Cons f fs)
  have "map (\<lambda>g. fst (processFile env (snd (processFile env st f)) g)) fs =
        map (\<lambda>g. fst (processFile env st g)) fs"
    by (rule map_cong [OF refl]) (rule processFile_outcome)
  with Cons.IH [of "snd (processFile env st f)"] show ?case
    by (simp add: split_beta)
qed

lemma map_st_processFile_log:
  "log (snd (map_st (processFile env) st fs)) =
     log st @ map (\<lambda>f. SetSrc (img_src f)) (filter (\<lambda>f. type f \<noteq> Pdf) fs)"
proof (induction fs arbitrary: st)
  case Nil
  show ?case by simp
next
  case (Cons f fs)
  from Cons.IH [of "snd (processFile env st f)"] show ?case
    by (simp add: split_beta processFile_state)
qed

lemma map_st_processFile_state:
  "files (snd (map_st (processFile env) st fs)) = files st"
  "processing (snd (map_st (processFile env) st fs)) = processing st"
  "randoms_drawn (snd (map_st (processFile env) st fs)) = randoms_drawn st"
  "urls_created (snd (map_st (processFile env) st fs)) = urls_created st"
  by (rule map_st_keeps, rule processFile_state)+

lemma promise_all_map_Resolved: "promise_all (map Resolved as) = Resolved as"
  by (induction as) simp_all

lemma promise_all_ResolvedD: "promise_all rs = Resolved as \<Longrightarrow> rs = map Resolved as"
  by (induction rs arbitrary: as rule: promise_all.induct) (auto split: settled.splits)

lemma promise_all_Resolved:
  "promise_all rs = Resolved as \<longleftrightarrow> rs = map Resolved as"
  using promise_all_ResolvedD promise_all_map_Resolved by blast

lemma downloads_append: "downloads (xs @ ys) = downloads xs @ downloads ys"
  by (induction xs rule: downloads.induct) simp_all

lemma downloads_SetSrc: "downloads (map (\<lambda>f. SetSrc (g f)) fs) = []"
  by (induction fs) simp_all

text \<open>
  C1. In the batch variant, when the store is not empty and the processing of some
  entry \<open>f\<close> does not resolve (its promise is rejected or stays pending), the run
  triggers no download and creates no object URL: the downloads are those from before
  the run, whatever the other entries did. The run does not succeed: either it never
  gets past the \<^verbatim>\<open>await\<close> (the busy flag stays set, the only effects are the image loads
  that were started), or it ends in the \<^verbatim>\<open>catch\<close> block, which logs one error.
\<close>

theorem batch_failure_yields_no_archive:
  assumes "files st \<noteq> []"
    and "f \<in> set (files st)"
    and "\<forall>a. fst (processFile env st f) \<noteq> Resolved a"
  shows "downloads (log (processAndDownload env st)) = downloads (log st) \<and>
         files (processAndDownload env st) = files st \<and>
         urls_created (processAndDownload env st) = urls_created st \<and>
         ((processing (processAndDownload env st) \<and>
           log (processAndDownload env st) =
             log st @ map (\<lambda>f. SetSrc (img_src f)) (filter (\<lambda>f. type f \<noteq> Pdf) (files st))) \<or>
          (\<not> processing (processAndDownload env st) \<and>
           (\<exists>e. log (processAndDownload env st) =
             log st @ map (\<lambda>f. SetSrc (img_src f)) (filter (\<lambda>f. type f \<noteq> Pdf) (files st)) @
             [ConsoleError e])))"
proof -
  let ?st1 = "st\<lparr>processing := True\<rparr>"
  let ?rs = "fst (map_st (processFile env) ?st1 (files st))"
  let ?st2 = "snd (map_st (processFile env) ?st1 (files st))"
  have rs: "?rs = map (\<lambda>f. fst (processFile env st f)) (files st)"
    unfolding map_st_processFile_fst
    by (rule map_cong [OF refl]) (rule processFile_outcome)
  have nr: "promise_all ?rs \<noteq> Resolved as" for as
  proof
    assume "promise_all ?rs = Resolved as"
    then have "map (\<lambda>f. fst (processFile env st f)) (files st) = map Resolved as"
      by (simp only: promise_all_Resolved rs)
    then have "fst (processFile env st f) \<in> set (map Resolved as)"
      using assms(2) by (metis image_eqI set_map)
    with assms(3) show False by auto
  qed
  have run: "processAndDownload env st =
      (case promise_all ?rs of
         Pending \<Rightarrow> ?st2
       | Rejected e \<Rightarrow> ?st2\<lparr>log := log ?st2 @ [ConsoleError e], processing := False\<rparr>
       | Resolved as \<Rightarrow> processAndDownload env st)"
    using assms(1) nr
    by (cases "promise_all ?rs") (simp_all add: processAndDownload_def Let_def split_beta)
  have lg: "log ?st2 =
      log st @ map (\<lambda>f. SetSrc (img_src f)) (filter (\<lambda>f. type f \<noteq> Pdf) (files st))"
    by (simp add: map_st_processFile_log)
  have keep: "files ?st2 = files st" "urls_created ?st2 = urls_created st" "processing ?st2"
    by (simp_all add: map_st_processFile_state)
  show ?thesis
  proof (cases "promise_all ?rs")
    case (Resolved as)
    with nr [of as] show ?thesis by simp
  next
    case (Rejected e)
    with run have "processAndDownload env st =
        ?st2\<lparr>log := log ?st2 @ [ConsoleError e], processing := False\<rparr>"
      by simp
    with lg keep show ?thesis
      by (simp add: downloads_append downloads_SetSrc)
  next
    case Pending
    with run have "processAndDownload env st = ?st2"
      by simp
    with lg keep show ?thesis
      by (simp add: downloads_append downloads_SetSrc)
  qed
qed

theorem batch_failure_yields_no_archive_witness:
  "files mixed_batch \<noteq> [] \<and>
   as_image (entry ''b'' ''y.png'' ''image/png'' ''blob:bad'' ''y'' 800 600)
     \<in> set (files mixed_batch) \<and>
   fst (processFile demo_browser mixed_batch
     (as_image (entry ''b'' ''y.png'' ''image/png'' ''blob:bad'' ''y'' 800 600))) = Pending \<and>
   fst (processFile demo_browser mixed_batch
     (as_image (entry ''a'' ''x.png'' ''image/png'' ''blob:0'' ''x'' 800 600))) =
     Resolved \<lparr>blob = Blob [800, 600] ''image/png'', filename = ''x.png''\<rparr> \<and>
   downloads (log (processAndDownload demo_browser mixed_batch)) = [] \<and>
   files pdf_batch \<noteq> [] \<and>
   document ''c'' ''broken.pdf'' ''broken'' \<in> set (files pdf_batch) \<and>
   fst (processFile demo_browser pdf_batch (document ''c'' ''broken.pdf'' ''broken'')) =
     Rejected PdfLoadError \<and>
   downloads (log (processAndDownload demo_browser pdf_batch)) = []"
proof -
  let ?a = "as_image (entry ''a'' ''x.png'' ''image/png'' ''blob:0'' ''x'' 800 600)"
  let ?b = "as_image (entry ''b'' ''y.png'' ''image/png'' ''blob:bad'' ''y'' 800 600)"
  let ?c = "document ''c'' ''broken.pdf'' ''broken''"
  have m1: "files mixed_batch \<noteq> []" and m2: "?b \<in> set (files mixed_batch)"
    and m0: "downloads (log mixed_batch) = []"
    by (simp_all add: mixed_batch_def idle_def)
  have m3: "fst (processFile demo_browser mixed_batch ?b) = Pending"
    by (simp add: demo_defs step_defs)
  have m4: "fst (processFile demo_browser mixed_batch ?a) =
      Resolved \<lparr>blob = Blob [800, 600] ''image/png'', filename = ''x.png''\<rparr>"
    by (simp add: demo_defs step_defs)
  have p1: "files pdf_batch \<noteq> []" and p2: "?c \<in> set (files pdf_batch)"
    and p0: "downloads (log pdf_batch) = []"
    by (simp_all add: pdf_batch_def idle_def)
  have p3: "fst (processFile demo_browser pdf_batch ?c) = Rejected PdfLoadError"
    by (simp add: demo_defs step_defs)
  from m3 have m3': "\<forall>a. fst (processFile demo_browser mixed_batch ?b) \<noteq> Resolved a"
    by simp
  from p3 have p3': "\<forall>a. fst (processFile demo_browser pdf_batch ?c) \<noteq> Resolved a"
    by simp
  have rm: "downloads (log (processAndDownload demo_browser mixed_batch)) = []"
    using batch_failure_yields_no_archive [OF m1 m2 m3'] m0 by simp
  have rp: "downloads (log (processAndDownload demo_browser pdf_batch)) = []"
    using batch_failure_yields_no_archive [OF p1 p2 p3'] p0 by simp
  from m1 m2 m3 m4 rm p1 p2 p3 rp show ?thesis
    by simp
qed

text \<open>
  C2, evaluated where the code departs from it: a store with one image whose decode
  fails. In both variants the run sets the busy flag and then waits for a promise that
  never settles: the \<^verbatim>\<open>catch\<close> and \<^verbatim>\<open>finally\<close> blocks are never reached, nothing is logged,
  and the busy flag is still set when the event loop has come to rest.
\<close>

theorem busy_flag_stays_set:
  "processing (handleProcessAndDownload demo_browser stuck_images) \<and>
   log (handleProcessAndDownload demo_browser stuck_images) = [SetSrc ''blob:bad''] \<and>
   processing (processAndDownload demo_browser stuck_batch) \<and>
   log (processAndDownload demo_browser stuck_batch) = [SetSrc ''blob:bad'']"
  by (simp add: handleProcessAndDownload_def processAndDownload_def stuck_images_def
      stuck_batch_def demo_defs step_defs)

text \<open>Where no promise of the run stays pending, the busy flag is cleared.\<close>

lemma batch_busy_cleared:
  "files st \<noteq> [] \<Longrightarrow>
   promise_all (map (\<lambda>f. fst (processFile env st f)) (files st)) \<noteq> Pending \<Longrightarrow>
   \<not> processing (processAndDownload env st)"
proof -
  assume ne: "files st \<noteq> []"
    and np: "promise_all (map (\<lambda>f. fst (processFile env st f)) (files st)) \<noteq> Pending"
  let ?st1 = "st\<lparr>processing := True\<rparr>"
  have "fst (map_st (processFile env) ?st1 (files st)) =
        map (\<lambda>f. fst (processFile env st f)) (files st)"
    unfolding map_st_processFile_fst
    by (rule map_cong [OF refl]) (rule processFile_outcome)
  with ne np show ?thesis
    by (simp add: processAndDownload_def Let_def split_beta createObjectURL_def
        revokeObjectURL_def split: settled.splits option.splits)
qed

section \<open>Archive\<close>

lemma assign_map_of: "map_of (assign n e z) = (map_of z)(n \<mapsto> e)"
  by (induction z) auto

lemma assign_keys: "fst ` set (assign n e z) = insert n (fst ` set z)"
  by (induction z) force+

lemma assign_distinct: "distinct (map fst z) \<Longrightarrow> distinct (map fst (assign n e z))"
  by (induction z) (auto simp: assign_keys)

lemma folderAdd_unfold:
  "folderAdd name z =
     (case map_of z (forceTrailingSlash name) of
        Some object \<Rightarrow> z
      | None \<Rightarrow>
          assign (forceTrailingSlash name) ZipDir
            (if parentFolder (forceTrailingSlash name) \<noteq> []
             then folderAdd (parentFolder (forceTrailingSlash name)) z else z))"
  by (subst folderAdd.simps) (simp add: Let_def split: option.splits)

lemma folderAdd_distinct:
  "distinct (map fst z) \<Longrightarrow> distinct (map fst (folderAdd name z))"
proof (induction name z rule: folderAdd.induct)
  case (1 name z)
  show ?case
  proof (cases "map_of z (forceTrailingSlash name)")
    case (Some object)
    with "1.prems" show ?thesis
      by (subst folderAdd_unfold) simp
  next
    case None
    with "1.IH" [OF None refl] "1.prems" show ?thesis
      by (subst folderAdd_unfold) (simp add: assign_distinct)
  qed
qed

lemma folderAdd_keeps:
  "map_of z k = Some e \<Longrightarrow> map_of (folderAdd name z) k = Some e"
proof (induction name z rule: folderAdd.induct)
  case (1 name z)
  show ?case
  proof (cases "map_of z (forceTrailingSlash name)")
    case (Some object)
    with "1.prems" show ?thesis
      by (subst folderAdd_unfold) simp
  next
    case None
    with "1.prems" have "k \<noteq> forceTrailingSlash name"
      by auto
    with None "1.IH" [OF None refl] "1.prems" show ?thesis
      by (subst folderAdd_unfold) (simp add: assign_map_of)
  qed
qed

lemma folderAdd_new:
  "map_of (folderAdd name z) k = Some e \<Longrightarrow> map_of z k = Some e \<or> e = ZipDir"
proof (induction name z rule: folderAdd.induct)
  case (1 name z)
  show ?case
  proof (cases "map_of z (forceTrailingSlash name)")
    case (Some object)
    with "1.prems" show ?thesis
      by (subst (asm) folderAdd_unfold) simp
  next
    case None
    from "1.prems" have
      "map_of (assign (forceTrailingSlash name) ZipDir
         (if parentFolder (forceTrailingSlash name) \<noteq> []
          then folderAdd (parentFolder (forceTrailingSlash name)) z else z)) k = Some e"
      by (subst (asm) folderAdd_unfold) (simp add: None)
    with "1.IH" [OF None refl] show ?thesis
      by (auto simp: assign_map_of split: if_splits)
  qed
qed

lemma zip_file_unfold:
  "zip_file name data z =
     assign name (ZipFile data)
       (if parentFolder name \<noteq> [] then folderAdd (parentFolder name) z else z)"
  by (simp add: zip_file_def Let_def)

lemma zip_file_distinct:
  "distinct (map fst z) \<Longrightarrow> distinct (map fst (zip_file name data z))"
  by (simp add: zip_file_unfold assign_distinct folderAdd_distinct)

lemma zip_file_same: "map_of (zip_file name data z) name = Some (ZipFile data)"
  by (simp add: zip_file_unfold assign_map_of)

lemma zip_file_keeps:
  "map_of z k = Some e \<Longrightarrow> k \<noteq> name \<Longrightarrow> map_of (zip_file name data z) k = Some e"
  by (simp add: zip_file_unfold assign_map_of folderAdd_keeps)

lemma zip_file_new:
  "map_of (zip_file name data z) k = Some e \<Longrightarrow>
   map_of z k = Some e \<or> e = ZipDir \<or> (k = name \<and> e = ZipFile data)"
  using folderAdd_new [of "parentFolder name" z k e]
  by (auto simp: zip_file_unfold assign_map_of split: if_splits)

lemma add_all_Cons:
  "add_all (a # as) z = add_all as (zip_file (filename a) (blob a) z)"
  by (simp add: add_all_def)

lemma add_all_append: "add_all (as @ bs) z = add_all bs (add_all as z)"
  by (simp add: add_all_def)

lemma add_all_distinct: "distinct (map fst z) \<Longrightarrow> distinct (map fst (add_all as z))"
  by (induction as arbitrary: z) (simp_all add: add_all_def zip_file_distinct)

lemma add_all_keeps:
  "map_of z k = Some e \<Longrightarrow> k \<notin> filename ` set as \<Longrightarrow> map_of (add_all as z) k = Some e"
  by (induction as arbitrary: z) (simp_all add: add_all_def zip_file_keeps)

lemma add_all_last:
  assumes "as = pre @ a # post" and "filename a \<notin> filename ` set post"
  shows "map_of (add_all as z) (filename a) = Some (ZipFile (blob a))"
  unfolding assms(1) add_all_append add_all_Cons
  by (rule add_all_keeps [OF zip_file_same assms(2)])

lemma add_all_files:
  "map_of (add_all as z) k = Some (ZipFile b) \<Longrightarrow>
   map_of z k = Some (ZipFile b) \<or> (\<exists>a \<in> set as. filename a = k \<and> blob a = b)"
proof (induction as arbitrary: z)
  case Nil
  then show ?case by (simp add: add_all_def)
next
  case (Cons a as)
  from Cons.prems have "map_of (add_all as (zip_file (filename a) (blob a) z)) k = Some (ZipFile b)"
    by (simp only: add_all_Cons)
  from Cons.IH [OF this] show ?case
  proof
    assume "map_of (zip_file (filename a) (blob a) z) k = Some (ZipFile b)"
    from zip_file_new [OF this] show ?thesis
      by auto
  next
    assume "\<exists>a \<in> set as. filename a = k \<and> blob a = b"
    then show ?thesis by auto
  qed
qed

lemma add_all_names:
  "a \<in> set as \<Longrightarrow> \<exists>e. map_of (add_all as z) (filename a) = Some e"
proof (induction as arbitrary: z rule: rev_induct)
  case Nil
  then show ?case by simp
next
  case (snoc x xs)
  show ?case
  proof (cases "filename a = filename x")
    case True
    then show ?thesis
      by (simp add: add_all_append add_all_def zip_file_same)
  next
    case False
    with snoc.prems have "a \<in> set xs" by auto
    from snoc.IH [OF this, of z] obtain e where "map_of (add_all xs z) (filename a) = Some e"
      by blast
    from zip_file_keeps [OF this False] show ?thesis
      by (auto simp: add_all_append add_all_def)
  qed
qed

text \<open>
  C9. In the batch variant, when every entry resolves and the archive is generated,
  the run triggers exactly one download, named \<^verbatim>\<open>processed_files.zip\<close>, logs no error
  and clears the busy flag. In the archive handed to the serialiser every name occurs
  once; the file name of every artifact is in it; every file in it is the blob of an
  artifact under that artifact's file name (the other entries are the folders that
  JSZip adds for names with a slash); and under a name the archive holds the blob of
  the last artifact with that name in store order: an earlier artifact of the same
  name is overwritten.
\<close>

theorem archive_collision_last_wins:
  assumes "files st \<noteq> []"
    and "map (\<lambda>f. fst (processFile env st f)) (files st) = map Resolved arts"
    and "generateAsync env (add_all arts []) = Some zipBlob"
  shows "downloads (log (processAndDownload env st)) =
           downloads (log st) @ [(''processed_files.zip'', zipBlob)] \<and>
         log (processAndDownload env st) =
           log st @ map (\<lambda>f. SetSrc (img_src f)) (filter (\<lambda>f. type f \<noteq> Pdf) (files st)) @
           [CreateObjectURL (object_url env (urls_created st)),
            Click ''processed_files.zip'' zipBlob,
            RevokeObjectURL (object_url env (urls_created st))] \<and>
         \<not> processing (processAndDownload env st) \<and>
         distinct (map fst (add_all arts [])) \<and>
         (x \<in> set arts \<longrightarrow> filename x \<in> fst ` set (add_all arts [])) \<and>
         (map_of (add_all arts []) k = Some (ZipFile b) \<longrightarrow>
            (\<exists>y \<in> set arts. filename y = k \<and> blob y = b)) \<and>
         (arts = pre @ a # post \<and> filename a \<notin> filename ` set post \<longrightarrow>
            map_of (add_all arts []) (filename a) = Some (ZipFile (blob a)))"
proof -
  let ?st1 = "st\<lparr>processing := True\<rparr>"
  let ?rs = "fst (map_st (processFile env) ?st1 (files st))"
  let ?st2 = "snd (map_st (processFile env) ?st1 (files st))"
  have "?rs = map (\<lambda>f. fst (processFile env st f)) (files st)"
    unfolding map_st_processFile_fst
    by (rule map_cong [OF refl]) (rule processFile_outcome)
  with assms(2) have pa: "promise_all ?rs = Resolved arts"
    by (simp only: promise_all_map_Resolved)
  have lg: "log ?st2 =
      log st @ map (\<lambda>f. SetSrc (img_src f)) (filter (\<lambda>f. type f \<noteq> Pdf) (files st))"
    by (simp add: map_st_processFile_log)
  have keep: "urls_created ?st2 = urls_created st"
    by (simp add: map_st_processFile_state)
  have run: "processAndDownload env st =
      (revokeObjectURL (object_url env (urls_created ?st2))
         ((snd (createObjectURL env ?st2))
            \<lparr>log := log (snd (createObjectURL env ?st2)) @
                 [Click ''processed_files.zip'' zipBlob]\<rparr>))\<lparr>processing := False\<rparr>"
    using assms(1) assms(3) pa
    by (simp add: processAndDownload_def Let_def split_beta createObjectURL_def)
  have l: "log (processAndDownload env st) =
           log st @ map (\<lambda>f. SetSrc (img_src f)) (filter (\<lambda>f. type f \<noteq> Pdf) (files st)) @
           [CreateObjectURL (object_url env (urls_created st)),
            Click ''processed_files.zip'' zipBlob,
            RevokeObjectURL (object_url env (urls_created st))]"
    unfolding run by (simp add: createObjectURL_def revokeObjectURL_def lg keep Let_def)
  have p: "\<not> processing (processAndDownload env st)"
    unfolding run by (simp add: revokeObjectURL_def)
  have d: "downloads (log (processAndDownload env st)) =
           downloads (log st) @ [(''processed_files.zip'', zipBlob)]"
    unfolding l by (simp add: downloads_append downloads_SetSrc)
  have c: "distinct (map fst (add_all arts []))"
    by (rule add_all_distinct) simp
  have n: "filename x \<in> fst ` set (add_all arts [])" if "x \<in> set arts"
  proof -
    from add_all_names [OF that, of "[]"] obtain e
      where "map_of (add_all arts []) (filename x) = Some e"
      by blast
    then have "(filename x, e) \<in> set (add_all arts [])"
      by (rule map_of_SomeD)
    then show ?thesis
      by (rule image_eqI [rotated]) simp
  qed
  have f: "\<exists>y \<in> set arts. filename y = k \<and> blob y = b"
    if "map_of (add_all arts []) k = Some (ZipFile b)"
    using add_all_files [OF that] by simp
  from d l p c n f add_all_last [of arts pre a post "[]"] show ?thesis
    by blast
qed

theorem archive_collision_last_wins_witness:
  "files same_names \<noteq> [] \<and>
   map (\<lambda>f. fst (processFile demo_browser same_names f)) (files same_names) =
     map Resolved [\<lparr>blob = Blob [800, 600] ''image/png'', filename = ''a.png''\<rparr>,
                   \<lparr>blob = Blob [640, 480] ''image/png'', filename = ''a.png''\<rparr>] \<and>
   add_all [\<lparr>blob = Blob [800, 600] ''image/png'', filename = ''a.png''\<rparr>,
            \<lparr>blob = Blob [640, 480] ''image/png'', filename = ''a.png''\<rparr>] [] =
     [(''a.png'', ZipFile (Blob [640, 480] ''image/png''))] \<and>
   generateAsync demo_browser
     (add_all [\<lparr>blob = Blob [800, 600] ''image/png'', filename = ''a.png''\<rparr>,
               \<lparr>blob = Blob [640, 480] ''image/png'', filename = ''a.png''\<rparr>] []) =
     Some (Blob [5] ''application/zip'') \<and>
   downloads (log (processAndDownload demo_browser same_names)) =
     [(''processed_files.zip'', Blob [5] ''application/zip'')] \<and>
   \<not> processing (processAndDownload demo_browser same_names) \<and>
   map_of (add_all [\<lparr>blob = Blob [800, 600] ''image/png'', filename = ''a.png''\<rparr>,
                    \<lparr>blob = Blob [640, 480] ''image/png'', filename = ''a.png''\<rparr>] [])
     ''a.png'' = Some (ZipFile (Blob [640, 480] ''image/png'')) \<and>
   ''a.png'' \<in> fst ` set
     (add_all [\<lparr>blob = Blob [800, 600] ''image/png'', filename = ''a.png''\<rparr>,
               \<lparr>blob = Blob [640, 480] ''image/png'', filename = ''a.png''\<rparr>] [])"
proof -
  let ?p = "\<lparr>blob = Blob [800, 600] ''image/png'', filename = ''a.png''\<rparr>"
  let ?q = "\<lparr>blob = Blob [640, 480] ''image/png'', filename = ''a.png''\<rparr>"
  have h1: "files same_names \<noteq> []" and h0: "downloads (log same_names) = []"
    by (simp_all add: same_names_def idle_def)
  have h2: "map (\<lambda>f. fst (processFile demo_browser same_names f)) (files same_names) =
            map Resolved [?p, ?q]"
    by (simp add: same_names_def demo_defs step_defs)
  have z: "add_all [?p, ?q] [] = [(''a.png'', ZipFile (Blob [640, 480] ''image/png''))]"
    by (simp add: add_all_def zip_file_def parentFolder_def)
  have h3: "generateAsync demo_browser (add_all [?p, ?q] []) = Some (Blob [5] ''application/zip'')"
    unfolding z by (simp add: demo_browser_def)
  have s: "[?p, ?q] = [?p] @ ?q # [] \<and> filename ?q \<notin> filename ` set []"
    by simp
  have i: "?q \<in> set [?p, ?q]"
    by simp
  note T = archive_collision_last_wins [OF h1 h2 h3,
      of ?q "''a.png''" "Blob [640, 480] ''image/png''" "[?p]" ?q "[]"]
  from T [THEN conjunct1] h0 have d: "downloads (log (processAndDownload demo_browser same_names)) =
      [(''processed_files.zip'', Blob [5] ''application/zip'')]"
    by simp
  from T [THEN conjunct2, THEN conjunct2, THEN conjunct1]
  have p: "\<not> processing (processAndDownload demo_browser same_names)"
    by simp
  from i T [THEN conjunct2, THEN conjunct2, THEN conjunct2, THEN conjunct2, THEN conjunct1]
  have k: "''a.png'' \<in> fst ` set (add_all [?p, ?q] [])"
    by simp
  from s T [THEN conjunct2, THEN conjunct2, THEN conjunct2, THEN conjunct2, THEN conjunct2,
      THEN conjunct2]
  have m: "map_of (add_all [?p, ?q] []) ''a.png'' = Some (ZipFile (Blob [640, 480] ''image/png''))"
    by simp
  from h1 h2 z h3 d p m k show ?thesis
    by simp
qed

section \<open>Sequential runner\<close>

lemma pad_outcome:
  "fst (processAndDownloadImage env st f) = fst (processAndDownloadImage env st' f)"
  by (simp add: processAndDownloadImage_def Let_def onload_canvas_eq split_beta
      split: option.splits)

lemma filter_Click_downloads:
  "filter started_or_clicked (map (\<lambda>(n, b). Click n b) ds) = map (\<lambda>(n, b). Click n b) ds"
  by (induction ds) auto

lemma pad_visible:
  "filter started_or_clicked (log (snd (processAndDownloadImage env st f))) =
     filter started_or_clicked (log st) @
     SetSrc (img_src f) # map (\<lambda>(n, b). Click n b) (download_of env f)"
  by (simp add: download_of_def processAndDownloadImage_def Let_def onload_canvas_eq split_beta
      createObjectURL_def revokeObjectURL_def idle_def split: option.splits)

lemma pad_downloads:
  "downloads (log (snd (processAndDownloadImage env st f))) =
     downloads (log st) @ download_of env f"
  by (simp add: download_of_def processAndDownloadImage_def Let_def onload_canvas_eq split_beta
      createObjectURL_def revokeObjectURL_def idle_def downloads_append split: option.splits)

lemma download_of_cases:
  "(fst (processAndDownloadImage env st f) = Resolved () \<longrightarrow>
      (\<exists>b. download_of env f =
         [(outputFilename f @ ''.'' @ extension (file_name (file_f f)), b)])) \<and>
   (fst (processAndDownloadImage env st f) \<noteq> Resolved () \<longrightarrow> download_of env f = [])"
  by (simp add: download_of_def processAndDownloadImage_def Let_def onload_canvas_eq split_beta
      createObjectURL_def revokeObjectURL_def idle_def split: option.splits)

lemma for_files_visible:
  "filter started_or_clicked (log (snd (for_files env st fs))) =
     filter started_or_clicked (log st) @
     concat (map (\<lambda>g. SetSrc (img_src g) # map (\<lambda>(n, b). Click n b) (download_of env g))
       (take (Suc (length (takeWhile
          (\<lambda>g. fst (processAndDownloadImage env st0 g) = Resolved ()) fs))) fs)) \<and>
   downloads (log (snd (for_files env st fs))) =
     downloads (log st) @
     concat (map (download_of env)
       (takeWhile (\<lambda>g. fst (processAndDownloadImage env st0 g) = Resolved ()) fs))"
proof (induction fs arbitrary: st)
  case Nil
  show ?case by simp
next
  case (Cons f fs)
  obtain r st1 where p: "processAndDownloadImage env st f = (r, st1)"
    by (cases "processAndDownloadImage env st f")
  from p have r: "fst (processAndDownloadImage env st0 f) = r"
    using pad_outcome [of env st0 f st] by simp
  from p pad_visible [of env st f]
  have v: "filter started_or_clicked (log st1) =
     filter started_or_clicked (log st) @
     SetSrc (img_src f) # map (\<lambda>(n, b). Click n b) (download_of env f)"
    by simp
  from p pad_downloads [of env st f]
  have d: "downloads (log st1) = downloads (log st) @ download_of env f"
    by simp
  show ?case
  proof (cases "r = Resolved ()")
    case True
    with p have "for_files env st (f # fs) = for_files env st1 fs"
      by simp
    with Cons.IH [of st1] r True v d show ?thesis
      by simp
  next
    case False
    with p have "snd (for_files env st (f # fs)) = st1"
      by (cases r) simp_all
    moreover from False r download_of_cases [of env st0 f] have "download_of env f = []"
      by simp
    ultimately show ?thesis
      using r False v d by simp
  qed
qed

text \<open>
  C5. In the image-only variant the run goes through the store in order. Seen from
  outside, its effects are, for each entry up to and including the first one whose
  processing does not resolve, the start of that entry followed by its download: an
  entry is started only after the download of the one before it, the failing entry is
  started and downloads nothing, and no entry behind it is started or downloaded. The
  downloads of the run are those of the entries before the first failing one, in store
  order. An entry that resolves downloads exactly one file, named by its output name
  and extension.
\<close>

theorem sequential_emit_order:
  "filter started_or_clicked (log (handleProcessAndDownload env st)) =
     filter started_or_clicked (log st) @
     concat (map (\<lambda>g. SetSrc (img_src g) # map (\<lambda>(n, b). Click n b) (download_of env g))
       (take (Suc (length (takeWhile
          (\<lambda>g. fst (processAndDownloadImage env st g) = Resolved ()) (files st)))) (files st))) \<and>
   downloads (log (handleProcessAndDownload env st)) =
     downloads (log st) @
     concat (map (download_of env)
       (takeWhile (\<lambda>g. fst (processAndDownloadImage env st g) = Resolved ()) (files st))) \<and>
   (fst (processAndDownloadImage env st f) = Resolved () \<longrightarrow>
      (\<exists>b. download_of env f =
         [(outputFilename f @ ''.'' @ extension (file_name (file_f f)), b)])) \<and>
   (fst (processAndDownloadImage env st f) \<noteq> Resolved () \<longrightarrow> download_of env f = [])"
proof -
  let ?st1 = "st\<lparr>processing := True\<rparr>"
  obtain r st2 where ff: "for_files env ?st1 (files st) = (r, st2)"
    by (cases "for_files env ?st1 (files st)")
  have lg: "filter started_or_clicked (log (handleProcessAndDownload env st)) =
            filter started_or_clicked (log st2) \<and>
            downloads (log (handleProcessAndDownload env st)) = downloads (log st2)"
    if "files st \<noteq> []"
    using that ff
    by (cases r) (simp_all add: handleProcessAndDownload_def Let_def downloads_append)
  from ff for_files_visible [of env ?st1 "files st" st]
  have fv: "filter started_or_clicked (log st2) =
     filter started_or_clicked (log st) @
     concat (map (\<lambda>g. SetSrc (img_src g) # map (\<lambda>(n, b). Click n b) (download_of env g))
       (take (Suc (length (takeWhile
          (\<lambda>g. fst (processAndDownloadImage env st g) = Resolved ()) (files st)))) (files st))) \<and>
   downloads (log st2) =
     downloads (log st) @
     concat (map (download_of env)
       (takeWhile (\<lambda>g. fst (processAndDownloadImage env st g) = Resolved ()) (files st)))"
    by simp
  show ?thesis
  proof (cases "files st = []")
    case True
    then show ?thesis
      using download_of_cases [of env st f]
      by (simp add: handleProcessAndDownload_def)
  next
    case False
    from lg [OF False] fv download_of_cases [of env st f] show ?thesis
      by simp
  qed
qed

theorem sequential_emit_order_witness:
  "fst (processAndDownloadImage demo_browser three_images
     (entry ''a'' ''x.png'' ''image/png'' ''blob:0'' ''x'' 800 600)) = Resolved () \<and>
   fst (processAndDownloadImage demo_browser three_images
     (entry ''b'' ''y.png'' ''image/png'' ''blob:bad'' ''y'' 800 600)) \<noteq> Resolved () \<and>
   filter started_or_clicked (log (handleProcessAndDownload demo_browser three_images)) =
     [SetSrc ''blob:0'', Click ''x.png'' (Blob [800, 600] ''image/png''), SetSrc ''blob:bad''] \<and>
   downloads (log (handleProcessAndDownload demo_browser three_images)) =
     [(''x.png'', Blob [800, 600] ''image/png'')] \<and>
   download_of demo_browser (entry ''b'' ''y.png'' ''image/png'' ''blob:bad'' ''y'' 800 600) = []"
proof -
  let ?a = "entry ''a'' ''x.png'' ''image/png'' ''blob:0'' ''x'' 800 600"
  let ?b = "entry ''b'' ''y.png'' ''image/png'' ''blob:bad'' ''y'' 800 600"
  let ?c = "entry ''c'' ''z.png'' ''image/png'' ''blob:1'' ''z'' 640 480"
  have fs: "files three_images = [?a, ?b, ?c]" and l0: "log three_images = []"
    by (simp_all add: three_images_def idle_def)
  have oa: "fst (processAndDownloadImage demo_browser three_images ?a) = Resolved ()"
    by (simp add: demo_defs step_defs split_beta)
  have ob: "fst (processAndDownloadImage demo_browser three_images ?b) = Pending"
    by (simp add: demo_defs step_defs split_beta)
  have tw: "takeWhile (\<lambda>g. fst (processAndDownloadImage demo_browser three_images g) = Resolved ())
              [?a, ?b, ?c] = [?a]"
    by (simp add: oa ob)
  have da: "download_of demo_browser ?a = [(''x.png'', Blob [800, 600] ''image/png'')]"
    by (simp add: download_of_def demo_defs step_defs split_beta)
  have sa: "img_src ?a = ''blob:0''" and sb: "img_src ?b = ''blob:bad''"
    by (simp_all add: img_src_def entry_def)
  note T = sequential_emit_order [of demo_browser three_images ?b]
  from ob T [THEN conjunct2, THEN conjunct2, THEN conjunct2]
  have db: "download_of demo_browser ?b = []"
    by simp
  from T [THEN conjunct1]
  have v: "filter started_or_clicked (log (handleProcessAndDownload demo_browser three_images)) =
     [SetSrc ''blob:0'', Click ''x.png'' (Blob [800, 600] ''image/png''), SetSrc ''blob:bad'']"
    unfolding fs tw l0 by (simp add: da db sa sb)
  from T [THEN conjunct2, THEN conjunct1]
  have d: "downloads (log (handleProcessAndDownload demo_browser three_images)) =
     [(''x.png'', Blob [800, 600] ''image/png'')]"
    unfolding fs tw l0 by (simp add: da)
  from oa ob v d db show ?thesis
    by simp
qed

lemma sequential_busy_cleared:
  "files st \<noteq> [] \<Longrightarrow>
   fst (for_files env (st\<lparr>processing := True\<rparr>) (files st)) \<noteq> Pending \<Longrightarrow>
   \<not> processing (handleProcessAndDownload env st)"
  by (auto simp: handleProcessAndDownload_def Let_def split: prod.splits settled.splits)

section \<open>Uniqueness of ids in reachable states\<close>

lemma processAndDownload_keeps:
  "files (processAndDownload env st) = files st"
  "randoms_drawn (processAndDownload env st) = randoms_drawn st"
  by (simp_all add: processAndDownload_def Let_def split_beta map_st_processFile_state
      createObjectURL_def revokeObjectURL_def split: settled.splits option.splits)

lemma processAndDownloadImage_state:
  "files (snd (processAndDownloadImage env st f)) = files st"
  "processing (snd (processAndDownloadImage env st f)) = processing st"
  "randoms_drawn (snd (processAndDownloadImage env st f)) = randoms_drawn st"
  by (simp_all add: processAndDownloadImage_def Let_def createObjectURL_def
      revokeObjectURL_def split: option.splits)

lemma for_files_state:
  "files (snd (for_files env st fs)) = files st \<and>
   processing (snd (for_files env st fs)) = processing st \<and>
   randoms_drawn (snd (for_files env st fs)) = randoms_drawn st"
proof (induction fs arbitrary: st)
  case Nil
  show ?case by simp
next
  case (Cons f fs)
  obtain r st1 where p: "processAndDownloadImage env st f = (r, st1)"
    by (cases "processAndDownloadImage env st f")
  from processAndDownloadImage_state [of env st f] p
  have k: "files st1 = files st" "processing st1 = processing st"
    "randoms_drawn st1 = randoms_drawn st"
    by simp_all
  show ?case
  proof (cases r)
    case (Resolved u)
    with p k Cons.IH [of st1] show ?thesis by simp
  next
    case (Rejected e)
    with p k show ?thesis by simp
  next
    case Pending
    with p k show ?thesis by simp
  qed
qed

lemma handleProcessAndDownload_keeps:
  "files (handleProcessAndDownload env st) = files st"
  "randoms_drawn (handleProcessAndDownload env st) = randoms_drawn st"
  using for_files_state [of env "st\<lparr>processing := True\<rparr>" "files st"]
  by (auto simp: handleProcessAndDownload_def Let_def split: prod.splits settled.splits)

lemma ids_drawn_idle: "ids_drawn env idle"
  by (simp add: ids_drawn_def idle_def)

lemma ids_drawn_intake:
  assumes "inj (drawn_id env)" "ids_drawn env st"
  shows "ids_drawn env (handleFileChange env st sel)"
proof (rule ids_drawn_append [OF assms, of "fst (map_st (newFile env) st sel)" "length sel"])
  note m = map_st_ids [of "newFile env" env st sel, OF newFile_facts(1) newFile_facts(2)]
  from m show "length (fst (map_st (newFile env) st sel)) = length sel"
    by simp
  from m show "\<forall>j<length sel. id_f (fst (map_st (newFile env) st sel) ! j) =
      drawn_id env (randoms_drawn st + j)"
    by simp
  have f: "files (snd (map_st (newFile env) st sel)) = files st"
    by (rule map_st_keeps) (rule newFile_facts(3))
  then show "files (handleFileChange env st sel) = files st @ fst (map_st (newFile env) st sel)"
    by (simp add: handleFileChange_def split_beta)
  from m show "randoms_drawn (handleFileChange env st sel) = randoms_drawn st + length sel"
    by (simp add: handleFileChange_def split_beta)
qed

lemma ids_drawn_intake_img:
  assumes "inj (drawn_id env)" "ids_drawn env st"
  shows "ids_drawn env (handleFileChange_img env st sel)"
proof (rule ids_drawn_append [OF assms, of "fst (map_st (newImage env) st sel)" "length sel"])
  note m = map_st_ids [of "newImage env" env st sel, OF newImage_facts(1) newImage_facts(2)]
  from m show "length (fst (map_st (newImage env) st sel)) = length sel"
    by simp
  from m show "\<forall>j<length sel. id_f (fst (map_st (newImage env) st sel) ! j) =
      drawn_id env (randoms_drawn st + j)"
    by simp
  have f: "files (snd (map_st (newImage env) st sel)) = files st"
    by (rule map_st_keeps) (rule newImage_facts(3))
  then show "files (handleFileChange_img env st sel) =
      files st @ fst (map_st (newImage env) st sel)"
    by (simp add: handleFileChange_img_def split_beta)
  from m show "randoms_drawn (handleFileChange_img env st sel) = randoms_drawn st + length sel"
    by (simp add: handleFileChange_img_def split_beta)
qed

lemma reachable_ids_drawn:
  assumes "inj (drawn_id env)"
  shows "reachable env st \<Longrightarrow> ids_drawn env st"
proof (induction rule: reachable.induct)
  case start
  show ?case by (rule ids_drawn_idle)
next
  case (intake st sel)
  with assms show ?case by (simp add: ids_drawn_intake)
next
  case (remove st i)
  then show ?case by (simp add: ids_drawn_remove)
next
  case (update st i u)
  then show ?case by (simp add: ids_drawn_update)
next
  case (run st)
  then show ?case by (simp add: ids_drawn_def processAndDownload_keeps)
qed

lemma reachable_img_ids_drawn:
  assumes "inj (drawn_id env)"
  shows "reachable_img env st \<Longrightarrow> ids_drawn env st"
proof (induction rule: reachable_img.induct)
  case start_img
  show ?case by (rule ids_drawn_idle)
next
  case (intake_img st sel)
  with assms show ?case by (simp add: ids_drawn_intake_img)
next
  case (remove_img st i)
  then show ?case by (simp add: ids_drawn_remove)
next
  case (update_img st i u)
  then show ?case by (simp add: ids_drawn_update)
next
  case (run_img st)
  then show ?case by (simp add: ids_drawn_def handleProcessAndDownload_keeps)
qed

text \<open>
  C8 does not hold as stated: the id is \<^verbatim>\<open>Math.random().toString(36).substring(7)\<close>, and
  nothing compares it with the ids in the store. When \<^verbatim>\<open>Math.random()\<close> returns 0.5 and
  then 0.25 during one intake, both new entries get the empty id.
\<close>

theorem ids_collide_counterexample:
  "reachable_img demo_browser twins \<and> \<not> distinct (map id_f (files twins)) \<and>
   reachable demo_browser (handleFileChange demo_browser idle selection) \<and>
   \<not> distinct (map id_f (files (handleFileChange demo_browser idle selection)))"
proof -
  have "reachable_img demo_browser twins"
    unfolding twins_def by (rule intake_img [OF start_img])
  moreover have "\<not> distinct (map id_f (files twins))"
    by (simp add: twins_eval demo_defs)
  moreover have "reachable demo_browser (handleFileChange demo_browser idle selection)"
    by (rule intake [OF start])
  moreover have "\<not> distinct (map id_f (files (handleFileChange demo_browser idle selection)))"
    by (simp add: handleFileChange_def selection_def newFile_def demo_defs
      createObjectURL_def substring_def nameWithoutExt_def startsWith_def Let_def)
  ultimately show ?thesis by simp
qed

text \<open>
  C8, as far as the code goes. Removal and update keep the ids pairwise distinct. If
  the random number generator never leads to the same id twice, the ids are pairwise
  distinct in every state reachable from the freshly mounted component by intake,
  removal, update and batch runs, in both variants.
\<close>

theorem ids_unique_when_draws_differ:
  "(distinct (map id_f (files s)) \<longrightarrow>
      distinct (map id_f (files (removeFile i s))) \<and>
      distinct (map id_f (files (updateFileSettings i u s)))) \<and>
   (inj (drawn_id env) \<longrightarrow>
      (reachable env st \<longrightarrow> distinct (map id_f (files st))) \<and>
      (reachable_img env st' \<longrightarrow> distinct (map id_f (files st'))))"
proof -
  have "distinct (map id_f (files (removeFile i s)))" if "distinct (map id_f (files s))"
    using that by (simp add: removeFile_files distinct_map_filter)
  moreover have "distinct (map id_f (files (updateFileSettings i u s)))"
    if "distinct (map id_f (files s))"
  proof -
    have "map id_f (files (updateFileSettings i u s)) = map id_f (files s)"
      by (simp add: updateFileSettings_def update_ids spread_fields)
    with that show ?thesis by (simp only:)
  qed
  moreover have "distinct (map id_f (files st))" if "inj (drawn_id env)" "reachable env st"
    using reachable_ids_drawn [OF that] by (simp add: ids_drawn_def)
  moreover have "distinct (map id_f (files st'))" if "inj (drawn_id env)" "reachable_img env st'"
    using reachable_img_ids_drawn [OF that] by (simp add: ids_drawn_def)
  ultimately show ?thesis by blast
qed

lemma counting_inj: "inj (drawn_id counting_browser)"
  by (rule injI) (simp add: drawn_id_def counting_browser_def demo_browser_def substring_def)

theorem ids_unique_when_draws_differ_witness:
  "distinct (map id_f (files two_images)) \<and>
   distinct (map id_f (files (removeFile ''a'' two_images))) \<and>
   distinct (map id_f (files (updateFileSettings ''a'' wider two_images))) \<and>
   inj (drawn_id counting_browser) \<and>
   reachable counting_browser (handleFileChange counting_browser idle selection) \<and>
   distinct (map id_f (files (handleFileChange counting_browser idle selection))) \<and>
   reachable_img counting_browser (handleFileChange_img counting_browser idle selection) \<and>
   distinct (map id_f (files (handleFileChange_img counting_browser idle selection)))"
proof -
  have d: "distinct (map id_f (files two_images))"
    by (simp add: two_images_def demo_defs)
  have r: "reachable counting_browser (handleFileChange counting_browser idle selection)"
    by (rule intake [OF start])
  have r': "reachable_img counting_browser (handleFileChange_img counting_browser idle selection)"
    by (rule intake_img [OF start_img])
  note T = ids_unique_when_draws_differ [of two_images "''a''" wider counting_browser
      "handleFileChange counting_browser idle selection"
      "handleFileChange_img counting_browser idle selection"]
  from d counting_inj r r' T show ?thesis
    by simp
qed

end
